theory Spec2Isabelle
  imports Main
begin

section \<open>Status vocabulary\<close>

text \<open>
  Modelled from the spec: the package \<^verbatim>\<open>entity\<close> that declares
  \<^verbatim>\<open>TaskInstanceStatus\<close> is not among the sources. The spec lists the task-instance
  statuses Init, Running, Continue, Ending, Retrying (the in-flight family), Success,
  Skipped, Failed, Canceled and Blocked; \<^verbatim>\<open>tasktree.go\<close> names exactly these ten
  constants.
\<close>

datatype TaskInstanceStatus =
    TaskInstanceStatusInit
  | TaskInstanceStatusCanceled
  | TaskInstanceStatusRunning
  | TaskInstanceStatusEnding
  | TaskInstanceStatusFailed
  | TaskInstanceStatusRetrying
  | TaskInstanceStatusSuccess
  | TaskInstanceStatusBlocked
  | TaskInstanceStatusContinue
  | TaskInstanceStatusSkipped

text \<open>
  \<^verbatim>\<open>TreeStatus\<close> is a string type with four named constants. The named result
  \<^verbatim>\<open>status\<close> of \<^verbatim>\<open>ComputeStatus\<close> starts as the zero value of that type (the empty
  string), which is none of the four: \<open>TreeStatusZero\<close> stands for it.
\<close>

datatype TreeStatus =
    TreeStatusZero
  | TreeStatusRunning
  | TreeStatusSuccess
  | TreeStatusFailed
  | TreeStatusBlocked

definition virtualTaskRootID :: string where
  "virtualTaskRootID = ''_virtual_root''"

definition TaskEndID :: string where
  "TaskEndID = ''End''"

section \<open>Task descriptors and collaborator records\<close>

text \<open>
  The interface \<^verbatim>\<open>TaskInfoGetter\<close>: a value answering the four getters. A descriptor
  is the record of the four answers.
\<close>

record TaskInfoGetter =
  GetDepend :: "string list"
  GetID :: string
  GetGraphID :: string
  GetStatus :: TaskInstanceStatus

text \<open>
  Modelled from the spec: \<^verbatim>\<open>entity.TaskInstance\<close> is declared outside the sources.
  The code reads its fields \<^verbatim>\<open>ID\<close>, \<^verbatim>\<open>DagInsID\<close> and \<^verbatim>\<open>Status\<close>; the last is
  named \<open>InsStatus\<close> here because the node record below owns the field name
  \<open>Status\<close>.
\<close>

record TaskInstance =
  ID :: string
  DagInsID :: string
  InsStatus :: TaskInstanceStatus

text \<open>
  Modelled from the spec: the filter \<^verbatim>\<open>ListTaskInstanceInput\<close> with the two fields
  the code sets (run identity and task identity).
\<close>

record ListTaskInstanceInput =
  InputDagInsID :: string
  InputTaskID :: string

text \<open>
  Modelled from the spec: the store behind \<^verbatim>\<open>GetStore()\<close> is an external
  collaborator with two lookups, each returning a record (or a list of records) or an
  error. \<open>None\<close> stands for a non-nil error.
\<close>

record Store =
  GetTaskIns :: "string \<Rightarrow> TaskInstance option"
  ListTaskInstance :: "ListTaskInstanceInput \<Rightarrow> TaskInstance list option"

section \<open>Graph nodes in a store\<close>

text \<open>
  Nodes are heap objects linked by pointers, and one node can be the child of several
  parents. A pointer is an address; the store maps every address to the node it holds.
\<close>

type_synonym addr = nat

record TaskNode =
  TaskInsID :: string
  Status :: TaskInstanceStatus
  children :: "addr list"
  parents :: "addr list"

type_synonym heap = "addr \<Rightarrow> TaskNode"

definition NewTaskNodeFromGetter :: "TaskInfoGetter \<Rightarrow> TaskNode" where
  "NewTaskNodeFromGetter inst =
     \<lparr>TaskInsID = GetID inst, Status = GetStatus inst, children = [], parents = []\<rparr>"

definition AppendChild :: "addr \<Rightarrow> addr \<Rightarrow> heap \<Rightarrow> heap" where
  "AppendChild t task h = h(t := (h t)\<lparr>children := children (h t) @ [task]\<rparr>)"

definition AppendParent :: "addr \<Rightarrow> addr \<Rightarrow> heap \<Rightarrow> heap" where
  "AppendParent t task h = h(t := (h t)\<lparr>parents := parents (h t) @ [task]\<rparr>)"

definition CanExecuteChild :: "heap \<Rightarrow> addr \<Rightarrow> bool" where
  "CanExecuteChild h t =
     (Status (h t) = TaskInstanceStatusSuccess \<or> Status (h t) = TaskInstanceStatusSkipped)"

definition CanBeExecuted :: "heap \<Rightarrow> addr \<Rightarrow> bool" where
  "CanBeExecuted h t =
     (if length (parents (h t)) = 0 then True
      else list_all (CanExecuteChild h) (parents (h t)))"

definition Executable :: "heap \<Rightarrow> addr \<Rightarrow> bool" where
  "Executable h t =
     (if Status (h t) = TaskInstanceStatusInit \<or>
         Status (h t) = TaskInstanceStatusRetrying \<or>
         Status (h t) = TaskInstanceStatusContinue \<or>
         Status (h t) = TaskInstanceStatusEnding
      then (if length (parents (h t)) = 0 then True
            else list_all (CanExecuteChild h) (parents (h t)))
      else False)"

section \<open>Graph builder\<close>

text \<open>
  Construction errors, one constructor per error message of the source. A lookup
  \<^verbatim>\<open>m[tasks[i].GetGraphID()]\<close> that misses yields a nil pointer whose use panics;
  \<open>NilPointerPanic\<close> is that branch.
\<close>

datatype build_error =
    TaskIdRepeat string
  | DependNotFound string string
  | NoStartNodes
  | NilPointerPanic

text \<open>The content of a cell before anything is allocated in it.\<close>

definition emptyHeap :: heap where
  "emptyHeap = (\<lambda>_. \<lparr>TaskInsID = [], Status = TaskInstanceStatusInit, children = [], parents = []\<rparr>)"

text \<open>
  \<^verbatim>\<open>buildGraphNodeMap\<close>: the loop state is the map, the store and the next free
  address; every iteration allocates one node.
\<close>

fun buildGraphNodeMap_loop ::
  "TaskInfoGetter list \<Rightarrow> (string \<rightharpoonup> addr) \<Rightarrow> heap \<Rightarrow> addr \<Rightarrow>
     build_error + ((string \<rightharpoonup> addr) \<times> heap)" where
  "buildGraphNodeMap_loop [] m h fresh = Inr (m, h)"
| "buildGraphNodeMap_loop (t # ts) m h fresh =
     (if m (GetGraphID t) \<noteq> None then Inl (TaskIdRepeat (GetGraphID t))
      else buildGraphNodeMap_loop ts (m(GetGraphID t \<mapsto> fresh))
             (h(fresh := NewTaskNodeFromGetter t)) (Suc fresh))"

definition buildGraphNodeMap ::
  "TaskInfoGetter list \<Rightarrow> heap \<Rightarrow> addr \<Rightarrow> build_error + ((string \<rightharpoonup> addr) \<times> heap)" where
  "buildGraphNodeMap tasks h fresh = buildGraphNodeMap_loop tasks Map.empty h fresh"

text \<open>The inner loop of \<^verbatim>\<open>BuildRootNode\<close> over the dependencies of one task.\<close>

fun linkDepend ::
  "(string \<rightharpoonup> addr) \<Rightarrow> TaskInfoGetter \<Rightarrow> string list \<Rightarrow> heap \<Rightarrow> build_error + heap" where
  "linkDepend m t [] h = Inr h"
| "linkDepend m t (dependId # ds) h =
     (case m dependId of
        None \<Rightarrow> Inl (DependNotFound (GetGraphID t) dependId)
      | Some parent \<Rightarrow>
          (case m (GetGraphID t) of
             None \<Rightarrow> Inl NilPointerPanic
           | Some n \<Rightarrow> linkDepend m t ds (AppendParent n parent (AppendChild parent n h))))"

text \<open>The outer loop of \<^verbatim>\<open>BuildRootNode\<close> over the tasks.\<close>

fun linkTasks ::
  "addr \<Rightarrow> (string \<rightharpoonup> addr) \<Rightarrow> TaskInfoGetter list \<Rightarrow> heap \<Rightarrow> build_error + heap" where
  "linkTasks root m [] h = Inr h"
| "linkTasks root m (t # ts) h =
     (case (if length (GetDepend t) = 0
            then (case m (GetGraphID t) of
                    None \<Rightarrow> Inl NilPointerPanic
                  | Some n \<Rightarrow> Inr (AppendChild root n (AppendParent n root h)))
            else Inr h) of
        Inl e \<Rightarrow> Inl e
      | Inr h1 \<Rightarrow>
          (case (if 0 < length (GetDepend t) then linkDepend m t (GetDepend t) h1 else Inr h1) of
             Inl e \<Rightarrow> Inl e
           | Inr h2 \<Rightarrow> linkTasks root m ts h2))"

text \<open>
  \<^verbatim>\<open>BuildRootNode\<close>: the root is allocated first (address 0), then one node per
  task in input order. The result is the store together with the root pointer.
\<close>

definition BuildRootNode :: "TaskInfoGetter list \<Rightarrow> build_error + (heap \<times> addr)" where
  "BuildRootNode tasks =
     (let root = 0;
          h0 = emptyHeap(root := \<lparr>TaskInsID = virtualTaskRootID,
                  Status = TaskInstanceStatusSuccess, children = [], parents = []\<rparr>)
      in case buildGraphNodeMap tasks h0 (Suc root) of
           Inl e \<Rightarrow> Inl e
         | Inr (m, h1) \<Rightarrow>
             (case linkTasks root m tasks h1 of
                Inl e \<Rightarrow> Inl e
              | Inr h2 \<Rightarrow>
                  if length (children (h2 root)) = 0 then Inl NoStartNodes
                  else Inr (h2, root)))"

section \<open>Traversal engine\<close>

text \<open>
  A visit callback is a closure: it reads and writes the variables it captured and the
  nodes it is handed. Its state is the store paired with the captured variables; it
  returns whether the walk goes on.
\<close>

type_synonym 'c walkFunc = "addr \<Rightarrow> heap \<times> 'c \<Rightarrow> bool \<times> heap \<times> 'c"

text \<open>
  \<^verbatim>\<open>dfsWalk\<close> recurses along child pointers, and nothing in the builder keeps those
  acyclic. The first argument bounds the depth of the recursion: \<open>None\<close> means the
  walk did not return within that depth. \<open>dfsWalk_children\<close> is the loop over
  \<^verbatim>\<open>root.children\<close>.
\<close>

fun dfsWalk :: "nat \<Rightarrow> addr \<Rightarrow> 'c walkFunc \<Rightarrow> bool \<Rightarrow> heap \<times> 'c \<Rightarrow> (bool \<times> heap \<times> 'c) option"
and dfsWalk_children ::
  "nat \<Rightarrow> addr list \<Rightarrow> 'c walkFunc \<Rightarrow> bool \<Rightarrow> heap \<times> 'c \<Rightarrow> (bool \<times> heap \<times> 'c) option"
where
  "dfsWalk 0 root walkFunc walkChildrenIgnoreStatus s = None"
| "dfsWalk (Suc d) root walkFunc walkChildrenIgnoreStatus s =
     (case (if TaskInsID (fst s root) \<noteq> virtualTaskRootID then walkFunc root s else (True, s)) of
        (go, s1) \<Rightarrow>
          if \<not> go then Some (False, s1)
          else if \<not> walkChildrenIgnoreStatus \<and> \<not> CanExecuteChild (fst s1) root then Some (True, s1)
          else dfsWalk_children d (children (fst s1 root)) walkFunc walkChildrenIgnoreStatus s1)"
| "dfsWalk_children d [] walkFunc walkChildrenIgnoreStatus s = Some (True, s)"
| "dfsWalk_children d (c # cs) walkFunc walkChildrenIgnoreStatus s =
     (if 1 < length (parents (fst s c)) \<and> \<not> CanBeExecuted (fst s) c
      then dfsWalk_children d cs walkFunc walkChildrenIgnoreStatus s
      else (case dfsWalk d c walkFunc walkChildrenIgnoreStatus s of
              None \<Rightarrow> None
            | Some (go, s1) \<Rightarrow>
                if \<not> go then Some (False, s1)
                else dfsWalk_children d cs walkFunc walkChildrenIgnoreStatus s1))"

definition walkNode ::
  "nat \<Rightarrow> addr \<Rightarrow> 'c walkFunc \<Rightarrow> bool \<Rightarrow> heap \<times> 'c \<Rightarrow> (heap \<times> 'c) option" where
  "walkNode d root walkFunc walkChildrenIgnoreStatus s =
     map_option snd (dfsWalk d root walkFunc walkChildrenIgnoreStatus s)"

section \<open>Status aggregator\<close>

text \<open>
  The callback of \<^verbatim>\<open>ComputeStatus\<close>. It captures the two named results
  \<^verbatim>\<open>status\<close> and \<^verbatim>\<open>srcTaskInsId\<close>; the \<^verbatim>\<open>switch\<close> is the chain of tests in
  the order of its cases.
\<close>

definition ComputeStatus_walkFunc :: "(TreeStatus \<times> string) walkFunc" where
  "ComputeStatus_walkFunc node s =
     (case s of (h, status, srcTaskInsId) \<Rightarrow>
        if Status (h node) = TaskInstanceStatusFailed \<or> Status (h node) = TaskInstanceStatusCanceled
        then (True, h, TreeStatusFailed, TaskInsID (h node))
        else if Status (h node) = TaskInstanceStatusBlocked
        then (True, h, TreeStatusBlocked, TaskInsID (h node))
        else if Status (h node) = TaskInstanceStatusSuccess \<or> Status (h node) = TaskInstanceStatusSkipped
        then (True, h, status, srcTaskInsId)
        else (False, h, TreeStatusRunning, TaskInsID (h node)))"

text \<open>
  The fast path of \<^verbatim>\<open>ComputeStatus\<close>: the two store lookups and the test of the end
  marker. True exactly when the source returns \<^verbatim>\<open>TreeStatusSuccess, ""\<close> before
  walking.
\<close>

definition endTaskSucceeded :: "Store \<Rightarrow> string \<Rightarrow> bool" where
  "endTaskSucceeded store firstChildID =
     (case GetTaskIns store firstChildID of
        None \<Rightarrow> False
      | Some taskIns \<Rightarrow>
          (case ListTaskInstance store
                  \<lparr>InputDagInsID = DagInsID taskIns, InputTaskID = TaskEndID\<rparr> of
             None \<Rightarrow> False
           | Some endTask \<Rightarrow>
               length endTask = 1 \<and> InsStatus (hd endTask) = TaskInstanceStatusSuccess))"

text \<open>
  What a call can do besides returning: \<^verbatim>\<open>t.children[0]\<close> panics on a root without
  children, and the walk may not return within the depth bound.
\<close>

datatype fault = IndexOutOfRange | DepthExceeded

text \<open>
  \<^verbatim>\<open>ComputeStatus\<close>, with the store passed in and the final node store returned
  beside the result.
\<close>

definition ComputeStatus ::
  "nat \<Rightarrow> Store \<Rightarrow> heap \<Rightarrow> addr \<Rightarrow> fault + ((TreeStatus \<times> string) \<times> heap)" where
  "ComputeStatus d store h t =
     (case children (h t) of
        [] \<Rightarrow> Inl IndexOutOfRange
      | c0 # _ \<Rightarrow>
          if endTaskSucceeded store (TaskInsID (h c0)) then Inr ((TreeStatusSuccess, []), h)
          else (case walkNode d t ComputeStatus_walkFunc False (h, TreeStatusZero, []) of
                  None \<Rightarrow> Inl DepthExceeded
                | Some (h', status, srcTaskInsId) \<Rightarrow>
                    if srcTaskInsId \<noteq> [] then Inr ((status, srcTaskInsId), h')
                    else Inr ((TreeStatusSuccess, []), h')))"

section \<open>Executable-set finder\<close>

definition GetExecutableTaskIds_walkFunc :: "string list walkFunc" where
  "GetExecutableTaskIds_walkFunc node s =
     (case s of (h, executables) \<Rightarrow>
        (True, h, if Executable h node then executables @ [TaskInsID (h node)] else executables))"

definition GetExecutableTaskIds :: "nat \<Rightarrow> heap \<Rightarrow> addr \<Rightarrow> fault + (string list \<times> heap)" where
  "GetExecutableTaskIds d h t =
     (case walkNode d t GetExecutableTaskIds_walkFunc False (h, []) of
        None \<Rightarrow> Inl DepthExceeded
      | Some (h', executables) \<Rightarrow> Inr (executables, h'))"

section \<open>Incremental advancer\<close>

text \<open>
  The callback of \<^verbatim>\<open>GetNextTaskIds\<close>. It captures \<^verbatim>\<open>executable\<close> and \<^verbatim>\<open>find\<close>
  (\<open>find'\<close> here) and writes the status of the node it matches.
\<close>

definition GetNextTaskIds_walkFunc :: "TaskInstance \<Rightarrow> (string list \<times> bool) walkFunc" where
  "GetNextTaskIds_walkFunc completedOrRetryTask node s =
     (case s of (h, executable, find') \<Rightarrow>
        if ID completedOrRetryTask = TaskInsID (h node)
        then (let h1 = h(node := (h node)\<lparr>Status := InsStatus completedOrRetryTask\<rparr>) in
              if Status (h1 node) = TaskInstanceStatusInit
              then (False, h1, executable @ [TaskInsID (h1 node)], True)
              else if \<not> CanExecuteChild h1 node then (False, h1, executable, True)
              else (False, h1,
                    executable @ map (\<lambda>c. TaskInsID (h1 c)) (filter (Executable h1) (children (h1 node))),
                    True))
        else (True, h, executable, find'))"

definition GetNextTaskIds ::
  "nat \<Rightarrow> heap \<Rightarrow> addr \<Rightarrow> TaskInstance \<Rightarrow> fault + ((string list \<times> bool) \<times> heap)" where
  "GetNextTaskIds d h t completedOrRetryTask =
     (case walkNode d t (GetNextTaskIds_walkFunc completedOrRetryTask) False (h, [], False) of
        None \<Rightarrow> Inl DepthExceeded
      | Some (h', executable, find') \<Rightarrow> Inr ((executable, find'), h'))"

section \<open>Cycle detector\<close>

definition isParentCompleted :: "heap \<Rightarrow> string set \<Rightarrow> addr \<Rightarrow> bool" where
  "isParentCompleted h visited node =
     list_all (\<lambda>p. TaskInsID (h p) \<in> visited) (parents (h node))"

text \<open>
  The \<^verbatim>\<open>for\<close> loop of \<^verbatim>\<open>bfsCheckCycle\<close> over the first \<^verbatim>\<open>queueLen\<close> entries of
  the queue; \<open>appended\<close> is what the loop has appended behind them.
\<close>

fun bfsCheckCycle_loop ::
  "heap \<Rightarrow> addr list \<Rightarrow> string set \<Rightarrow> (string \<rightharpoonup> addr) \<Rightarrow> addr list \<Rightarrow>
     string set \<times> (string \<rightharpoonup> addr) \<times> addr list" where
  "bfsCheckCycle_loop h [] visited incomplete appended = (visited, incomplete, appended)"
| "bfsCheckCycle_loop h (cur # rest) visited incomplete appended =
     (if \<not> isParentCompleted h visited cur
      then bfsCheckCycle_loop h rest visited (incomplete(TaskInsID (h cur) \<mapsto> cur)) appended
      else bfsCheckCycle_loop h rest (insert (TaskInsID (h cur)) visited)
             (incomplete(TaskInsID (h cur) := None)) (appended @ children (h cur)))"

text \<open>
  \<^verbatim>\<open>bfsCheckCycle\<close> calls itself once per queue generation; the first argument bounds
  the number of calls. The two maps are shared with the caller, so they are returned.
\<close>

fun bfsCheckCycle ::
  "nat \<Rightarrow> heap \<Rightarrow> addr list \<Rightarrow> string set \<Rightarrow> (string \<rightharpoonup> addr) \<Rightarrow>
     (string set \<times> (string \<rightharpoonup> addr)) option" where
  "bfsCheckCycle 0 h waitQueue visited incomplete = None"
| "bfsCheckCycle (Suc d) h waitQueue visited incomplete =
     (if length waitQueue = 0 then Some (visited, incomplete)
      else (case bfsCheckCycle_loop h waitQueue visited incomplete [] of
              (visited', incomplete', appended) \<Rightarrow> bfsCheckCycle d h appended visited' incomplete'))"

text \<open>
  \<^verbatim>\<open>HasCycle\<close> returns the first entry that ranging over the map \<^verbatim>\<open>incomplete\<close>
  yields, and Go leaves the order of that range unspecified: the result is the set of
  the values a call may return (\<open>{None}\<close> when it returns nil).
\<close>

definition HasCycle :: "nat \<Rightarrow> heap \<Rightarrow> addr \<Rightarrow> addr option set option" where
  "HasCycle d h t =
     (case bfsCheckCycle d h [t] {} Map.empty of
        None \<Rightarrow> None
      | Some (visited, incomplete) \<Rightarrow>
          Some (if dom incomplete = {} then {None} else Some ` ran incomplete))"

section \<open>The order of the gated walk\<close>

text \<open>
  The nodes the gated walk hands to its callback, in order, when no callback stops it:
  depth first, children left to right; never the virtual root; no descent below a node
  whose status is neither Success nor Skipped; a child with more than one parent is
  skipped unless all its parents are Success or Skipped. \<open>None\<close> when the walk is
  deeper than the bound.
\<close>

fun walkOrder :: "nat \<Rightarrow> heap \<Rightarrow> addr \<Rightarrow> addr list option"
and walkOrder_children :: "nat \<Rightarrow> heap \<Rightarrow> addr list \<Rightarrow> addr list option"
where
  "walkOrder 0 h t = None"
| "walkOrder (Suc d) h t =
     (if \<not> CanExecuteChild h t
      then Some (if TaskInsID (h t) \<noteq> virtualTaskRootID then [t] else [])
      else map_option (\<lambda>vs. (if TaskInsID (h t) \<noteq> virtualTaskRootID then [t] else []) @ vs)
             (walkOrder_children d h (children (h t))))"
| "walkOrder_children d h [] = Some []"
| "walkOrder_children d h (c # cs) =
     (if 1 < length (parents (h c)) \<and> \<not> CanBeExecuted h c then walkOrder_children d h cs
      else (case walkOrder d h c of
              None \<Rightarrow> None
            | Some vs \<Rightarrow> map_option (\<lambda>ws. vs @ ws) (walkOrder_children d h cs)))"

text \<open>Handing a list of nodes to a callback, one after the other, until it says stop.\<close>

fun runOver :: "'c walkFunc \<Rightarrow> addr list \<Rightarrow> heap \<times> 'c \<Rightarrow> bool \<times> heap \<times> 'c" where
  "runOver f [] s = (True, s)"
| "runOver f (v # vs) s = (case f v s of (go, s1) \<Rightarrow> if go then runOver f vs s1 else (False, s1))"

section \<open>Auxiliary notions for the proofs\<close>

text \<open>
  A callback is stable while it continues: whenever it returns true it has left the
  store as it found it. All three callbacks of the source are.
\<close>

definition stableWhileTrue :: "'c walkFunc \<Rightarrow> bool" where
  "stableWhileTrue f = (\<forall>v h c. fst (f v (h, c)) \<longrightarrow> fst (snd (f v (h, c))) = h)"

section \<open>Example graphs\<close>

text \<open>
  A descriptor whose identity and graph identity coincide, as for a static task
  definition.
\<close>

definition task :: "string \<Rightarrow> string list \<Rightarrow> TaskInstanceStatus \<Rightarrow> TaskInfoGetter" where
  "task i ds st = \<lparr>GetDepend = ds, GetID = i, GetGraphID = i, GetStatus = st\<rparr>"

definition node :: "string \<Rightarrow> TaskInstanceStatus \<Rightarrow> addr list \<Rightarrow> addr list \<Rightarrow> TaskNode" where
  "node i st cs ps = \<lparr>TaskInsID = i, Status = st, children = cs, parents = ps\<rparr>"

text \<open>A store whose every lookup fails.\<close>

definition failingStore :: Store where
  "failingStore = \<lparr>GetTaskIns = (\<lambda>_. None), ListTaskInstance = (\<lambda>_. None)\<rparr>"

text \<open>
  The diamond A\<rightarrow>B, A\<rightarrow>C, B\<rightarrow>D, C\<rightarrow>D with the four statuses as parameters, and the
  store \<^verbatim>\<open>BuildRootNode\<close> builds from it: the root at address 0, then A, B, C, D at
  addresses 1 to 4.
\<close>

definition diamond ::
  "TaskInstanceStatus \<Rightarrow> TaskInstanceStatus \<Rightarrow> TaskInstanceStatus \<Rightarrow> TaskInstanceStatus \<Rightarrow>
     TaskInfoGetter list" where
  "diamond a b c d =
     [task ''A'' [] a, task ''B'' [''A''] b, task ''C'' [''A''] c, task ''D'' [''B'', ''C''] d]"

definition diamondHeap ::
  "TaskInstanceStatus \<Rightarrow> TaskInstanceStatus \<Rightarrow> TaskInstanceStatus \<Rightarrow> TaskInstanceStatus \<Rightarrow> heap" where
  "diamondHeap a b c d =
     emptyHeap(0 := node virtualTaskRootID TaskInstanceStatusSuccess [1] [],
               1 := node ''A'' a [2, 3] [0],
               2 := node ''B'' b [4] [1],
               3 := node ''C'' c [4] [1],
               4 := node ''D'' d [] [2, 3])"

section \<open>The verdict of the status aggregator, from the walk order\<close>

text \<open>
  The statuses of the in-flight family, and the three statuses that record a failed or
  blocked verdict.
\<close>

definition inFlight :: "heap \<Rightarrow> addr \<Rightarrow> bool" where
  "inFlight h v =
     (Status (h v) = TaskInstanceStatusInit \<or> Status (h v) = TaskInstanceStatusRunning \<or>
      Status (h v) = TaskInstanceStatusEnding \<or> Status (h v) = TaskInstanceStatusRetrying \<or>
      Status (h v) = TaskInstanceStatusContinue)"

definition failedOrBlocked :: "heap \<Rightarrow> addr \<Rightarrow> bool" where
  "failedOrBlocked h v =
     (Status (h v) = TaskInstanceStatusFailed \<or> Status (h v) = TaskInstanceStatusCanceled \<or>
      Status (h v) = TaskInstanceStatusBlocked)"

definition verdict :: "heap \<Rightarrow> addr \<Rightarrow> TreeStatus \<times> string" where
  "verdict h v =
     (if Status (h v) = TaskInstanceStatusBlocked then TreeStatusBlocked else TreeStatusFailed,
      TaskInsID (h v))"

text \<open>A recorded verdict counts only when its source identity is not the empty string.\<close>

definition sourced :: "TreeStatus \<times> string \<Rightarrow> TreeStatus \<times> string" where
  "sourced r = (if snd r \<noteq> [] then r else (TreeStatusSuccess, []))"

text \<open>
  The run status as a function of the walk order: Running at the first in-flight node
  if there is one; otherwise the verdict of the last failed, canceled or blocked node
  if there is one; otherwise Success.
\<close>

definition rollup :: "heap \<Rightarrow> addr list \<Rightarrow> TreeStatus \<times> string" where
  "rollup h vs =
     (case List.find (inFlight h) vs of
        Some v \<Rightarrow> sourced (TreeStatusRunning, TaskInsID (h v))
      | None \<Rightarrow>
          (case filter (failedOrBlocked h) vs of
             [] \<Rightarrow> (TreeStatusSuccess, [])
           | f # fs \<Rightarrow> sourced (verdict h (last (f # fs)))))"


definition failedThenBlockedHeap :: heap where
  "failedThenBlockedHeap =
     emptyHeap(0 := node virtualTaskRootID TaskInstanceStatusSuccess [1, 2] [],
               1 := node ''X'' TaskInstanceStatusFailed [] [0],
               2 := node ''Y'' TaskInstanceStatusBlocked [] [0])"

text \<open>A store that knows the run of every task and reports its end marker as succeeded.\<close>

definition endedStore :: Store where
  "endedStore =
     \<lparr>GetTaskIns = (\<lambda>i. Some \<lparr>ID = i, DagInsID = ''run'', InsStatus = TaskInstanceStatusRunning\<rparr>),
      ListTaskInstance = (\<lambda>q. Some [\<lparr>ID = ''e'', DagInsID = InputDagInsID q,
                                        InsStatus = TaskInstanceStatusSuccess\<rparr>])\<rparr>"

text \<open>The store holding only the virtual root, as \<^verbatim>\<open>BuildRootNode\<close> allocates it first.\<close>

definition rootHeap :: heap where
  "rootHeap = emptyHeap(0 := \<lparr>TaskInsID = virtualTaskRootID,
                  Status = TaskInstanceStatusSuccess, children = [], parents = []\<rparr>)"

text \<open>The callback that records every node it is handed and never stops the walk.\<close>

definition recordVisit :: "addr list walkFunc" where
  "recordVisit v s = (case s of (h, visits) \<Rightarrow> (True, h, visits @ [v]))"

section \<open>Notions for the cycle detector\<close>

text \<open>
  A node is resolved within \<open>k\<close> rounds when all its parents are resolved within
  \<open>k - 1\<close> rounds; a node without parents is resolved within one round. The
  resolvable nodes are those that are resolved within some number of rounds, and the
  level of such a node is one less than the least such number.
\<close>

fun resolved :: "heap \<Rightarrow> nat \<Rightarrow> addr \<Rightarrow> bool" where
  "resolved h 0 v = False"
| "resolved h (Suc k) v = list_all (resolved h k) (parents (h v))"

definition resolvable :: "heap \<Rightarrow> addr \<Rightarrow> bool" where
  "resolvable h v = (\<exists>k. resolved h k v)"

definition level :: "heap \<Rightarrow> addr \<Rightarrow> nat" where
  "level h v = (LEAST k. resolved h (Suc k) v)"

text \<open>
  The shape of a built graph with nodes at the addresses up to \<open>n\<close>: the root has no
  parents, every other node has one, parents and children are nodes, and the parent
  and child links mirror each other.
\<close>

definition wellLinked :: "heap \<Rightarrow> addr \<Rightarrow> nat \<Rightarrow> bool" where
  "wellLinked h root n \<longleftrightarrow>
     root \<le> n \<and> parents (h root) = [] \<and>
     (\<forall>v\<le>n. v \<noteq> root \<longrightarrow> parents (h v) \<noteq> []) \<and>
     (\<forall>v. \<forall>p\<in>set (parents (h v)). p \<le> n) \<and>
     (\<forall>v. \<forall>c\<in>set (children (h v)). c \<le> n) \<and>
     (\<forall>p c. c \<in> set (children (h p)) \<longleftrightarrow> p \<in> set (parents (h c)))"

text \<open>No node that is not resolvable shares its identity with another node.\<close>

definition ownIdentity :: "heap \<Rightarrow> nat \<Rightarrow> bool" where
  "ownIdentity h n \<longleftrightarrow>
     (\<forall>w\<le>n. \<not> resolvable h w \<longrightarrow> (\<forall>v\<le>n. TaskInsID (h v) = TaskInsID (h w) \<longrightarrow> v = w))"

text \<open>
  The invariants of \<^verbatim>\<open>bfsCheckCycle\<close>, for the generation \<open>g\<close> of the queue: in
  the loop over a generation (\<open>loopInv\<close>, with the part of the queue still to be
  processed and the entries appended so far) and between two calls (\<open>genInv\<close>).
\<close>

definition qOK :: "heap \<Rightarrow> addr \<Rightarrow> nat \<Rightarrow> nat \<Rightarrow> addr list \<Rightarrow> bool" where
  "qOK h root n g q \<longleftrightarrow>
     (\<forall>v\<in>set q. v \<le> n \<and>
        ((g = 0 \<and> v = root) \<or>
         (\<exists>p\<in>set (parents (h v)). resolvable h p \<and> g \<le> Suc (level h p))))"

definition coverR :: "heap \<Rightarrow> nat \<Rightarrow> nat \<Rightarrow> addr list \<Rightarrow> addr list \<Rightarrow> bool" where
  "coverR h n g rest app \<longleftrightarrow>
     (\<forall>v\<le>n. resolvable h v \<and> level h v = Suc g \<longrightarrow>
        v \<in> set app \<or>
        (\<exists>p\<in>set (parents (h v)). resolvable h p \<and> level h p = g \<and> p \<in> set rest))"

definition coverU :: "heap \<Rightarrow> nat \<Rightarrow> nat \<Rightarrow> addr list \<Rightarrow> addr list \<Rightarrow> bool" where
  "coverU h n g rest app \<longleftrightarrow>
     (\<forall>w\<le>n. \<not> resolvable h w \<longrightarrow>
        (\<forall>p\<in>set (parents (h w)). resolvable h p \<and> level h p = g \<longrightarrow>
           w \<in> set app \<or> p \<in> set rest))"

definition visOK :: "heap \<Rightarrow> nat \<Rightarrow> nat \<Rightarrow> addr list \<Rightarrow> string set \<Rightarrow> bool" where
  "visOK h n g rest visited \<longleftrightarrow>
     (\<forall>v\<le>n. resolvable h v \<and> (level h v < g \<or> (level h v = g \<and> v \<notin> set rest)) \<longrightarrow>
        TaskInsID (h v) \<in> visited)"

definition visSound :: "heap \<Rightarrow> nat \<Rightarrow> string set \<Rightarrow> bool" where
  "visSound h n visited \<longleftrightarrow>
     (\<forall>s\<in>visited. \<exists>v\<le>n. resolvable h v \<and> TaskInsID (h v) = s)"

definition incOK :: "heap \<Rightarrow> nat \<Rightarrow> nat \<Rightarrow> addr list \<Rightarrow> (string \<rightharpoonup> addr) \<Rightarrow> bool" where
  "incOK h n g rest incomplete \<longleftrightarrow>
     (\<forall>k w. incomplete k = Some w \<longrightarrow>
        w \<le> n \<and> TaskInsID (h w) = k \<and>
        (resolvable h w \<longrightarrow> Suc g \<le> level h w \<or> (level h w = g \<and> w \<in> set rest)) \<and>
        (\<not> resolvable h w \<longrightarrow> (\<exists>p\<in>set (parents (h w)). resolvable h p)))"

definition incAll :: "heap \<Rightarrow> nat \<Rightarrow> nat \<Rightarrow> addr list \<Rightarrow> (string \<rightharpoonup> addr) \<Rightarrow> bool" where
  "incAll h n g rest incomplete \<longleftrightarrow>
     (\<forall>w\<le>n. \<not> resolvable h w \<longrightarrow>
        (\<exists>p\<in>set (parents (h w)). resolvable h p \<and>
           (Suc (level h p) < g \<or> (Suc (level h p) = g \<and> w \<notin> set rest))) \<longrightarrow>
        incomplete (TaskInsID (h w)) = Some w)"

definition loopInv ::
  "heap \<Rightarrow> addr \<Rightarrow> nat \<Rightarrow> nat \<Rightarrow> addr list \<Rightarrow> string set \<Rightarrow> (string \<rightharpoonup> addr) \<Rightarrow> addr list \<Rightarrow> bool" where
  "loopInv h root n g rest visited incomplete app \<longleftrightarrow>
     qOK h root n g rest \<and> qOK h root n (Suc g) app \<and> coverR h n g rest app \<and>
     coverU h n g rest app \<and> visOK h n g rest visited \<and> visSound h n visited \<and>
     incOK h n g rest incomplete \<and> incAll h n g rest incomplete"

definition genInv ::
  "heap \<Rightarrow> addr \<Rightarrow> nat \<Rightarrow> nat \<Rightarrow> addr list \<Rightarrow> string set \<Rightarrow> (string \<rightharpoonup> addr) \<Rightarrow> bool" where
  "genInv h root n g q visited incomplete \<longleftrightarrow>
     qOK h root n g q \<and>
     (\<forall>v\<le>n. resolvable h v \<and> level h v = g \<longrightarrow> v \<in> set q) \<and>
     (\<forall>w\<le>n. \<not> resolvable h w \<longrightarrow>
        (\<forall>p\<in>set (parents (h w)). resolvable h p \<and> Suc (level h p) = g \<longrightarrow> w \<in> set q)) \<and>
     (\<forall>v\<le>n. resolvable h v \<and> level h v < g \<longrightarrow> TaskInsID (h v) \<in> visited) \<and>
     visSound h n visited \<and>
     (\<forall>k w. incomplete k = Some w \<longrightarrow>
        w \<le> n \<and> TaskInsID (h w) = k \<and> (resolvable h w \<longrightarrow> g \<le> level h w) \<and>
        (\<not> resolvable h w \<longrightarrow> (\<exists>p\<in>set (parents (h w)). resolvable h p))) \<and>
     (\<forall>w\<le>n. \<not> resolvable h w \<longrightarrow>
        (\<exists>p\<in>set (parents (h w)). resolvable h p \<and> Suc (level h p) < g) \<longrightarrow>
        incomplete (TaskInsID (h w)) = Some w)"

text \<open>
  The dependency relation of a graph (a parent and its child), and the nodes that are
  part of a cycle or depend on a node that is.
\<close>

definition dependsOn :: "heap \<Rightarrow> (addr \<times> addr) set" where
  "dependsOn h = {(p, v). p \<in> set (parents (h v))}"

definition onOrBelowCycle :: "heap \<Rightarrow> addr \<Rightarrow> bool" where
  "onOrBelowCycle h w \<longleftrightarrow> (\<exists>c. (c, c) \<in> (dependsOn h)\<^sup>+ \<and> (c, w) \<in> (dependsOn h)\<^sup>*)"

text \<open>
  The nodes that are part of a cycle or depend on one and have a parent that neither is
  part of a cycle nor depends on one.
\<close>

definition cycleFrontier :: "heap \<Rightarrow> addr set" where
  "cycleFrontier h =
     {w. onOrBelowCycle h w \<and> (\<exists>p\<in>set (parents (h w)). \<not> onOrBelowCycle h p)}"

text \<open>
  A start node S beside the cycle of A depending on B and B depending on A, in which no
  start node leads to the cycle; and the same with A depending on S as well.
\<close>

definition unreachableCycle :: "TaskInfoGetter list" where
  "unreachableCycle =
     [task ''S'' [] TaskInstanceStatusInit, task ''A'' [''B''] TaskInstanceStatusInit,
      task ''B'' [''A''] TaskInstanceStatusInit]"

definition unreachableCycleHeap :: heap where
  "unreachableCycleHeap =
     emptyHeap(0 := node virtualTaskRootID TaskInstanceStatusSuccess [1] [],
               1 := node ''S'' TaskInstanceStatusInit [] [0],
               2 := node ''A'' TaskInstanceStatusInit [3] [3],
               3 := node ''B'' TaskInstanceStatusInit [2] [2])"

definition reachableCycle :: "TaskInfoGetter list" where
  "reachableCycle =
     [task ''S'' [] TaskInstanceStatusInit, task ''A'' [''S'', ''B''] TaskInstanceStatusInit,
      task ''B'' [''A''] TaskInstanceStatusInit]"

definition reachableCycleHeap :: heap where
  "reachableCycleHeap =
     emptyHeap(0 := node virtualTaskRootID TaskInstanceStatusSuccess [1] [],
               1 := node ''S'' TaskInstanceStatusInit [2] [0],
               2 := node ''A'' TaskInstanceStatusInit [3] [1, 3],
               3 := node ''B'' TaskInstanceStatusInit [2] [2])"

text \<open>
  The same cycle reached from S, with the descriptor of B carrying the identity of S:
  graph identities are distinct, identities are not.
\<close>

definition sharedIdentityCycle :: "TaskInfoGetter list" where
  "sharedIdentityCycle =
     [\<lparr>GetDepend = [], GetID = ''s'', GetGraphID = ''S'', GetStatus = TaskInstanceStatusInit\<rparr>,
      \<lparr>GetDepend = [''S'', ''B''], GetID = ''a'', GetGraphID = ''A'', GetStatus = TaskInstanceStatusInit\<rparr>,
      \<lparr>GetDepend = [''A''], GetID = ''s'', GetGraphID = ''B'', GetStatus = TaskInstanceStatusInit\<rparr>]"

definition sharedIdentityCycleHeap :: heap where
  "sharedIdentityCycleHeap =
     emptyHeap(0 := node virtualTaskRootID TaskInstanceStatusSuccess [1] [],
               1 := node ''s'' TaskInstanceStatusInit [2] [0],
               2 := node ''a'' TaskInstanceStatusInit [3] [1, 3],
               3 := node ''s'' TaskInstanceStatusInit [2] [2])"

section \<open>The node at which the gated walk arrives\<close>

text \<open>
  The callback that stops the walk at the first node it is handed that carries identity
  \<open>i\<close>, and remembers that node; it writes nothing.
\<close>

definition seekIdentity :: "string \<Rightarrow> addr option walkFunc" where
  "seekIdentity i v s =
     (case s of (h, found) \<Rightarrow>
        if TaskInsID (h v) = i then (False, h, Some v) else (True, h, found))"

text \<open>
  Where the gated walk from \<open>t\<close>, run with that callback, ends: \<open>Some (Some v)\<close> when
  it arrives at \<open>v\<close>, the first node carrying identity \<open>i\<close> that it is handed;
  \<open>Some None\<close> when it ends without having been handed such a node; \<open>None\<close> when it
  does not return within the depth.
\<close>

definition firstReached :: "nat \<Rightarrow> heap \<Rightarrow> addr \<Rightarrow> string \<Rightarrow> addr option option" where
  "firstReached d h t i =
     map_option (\<lambda>x. snd (snd x)) (dfsWalk d t (seekIdentity i) False (h, None))"

text \<open>
  A start node S, a running task T below it, U waiting for T, and a finished task A that
  depends on S and on itself; and the store \<^verbatim>\<open>BuildRootNode\<close> builds from them, in
  which A is its own child and its own parent.
\<close>

definition selfDependent :: "TaskInfoGetter list" where
  "selfDependent =
     [task ''S'' [] TaskInstanceStatusSuccess, task ''T'' [''S''] TaskInstanceStatusRunning,
      task ''U'' [''T''] TaskInstanceStatusInit, task ''A'' [''S'', ''A''] TaskInstanceStatusSuccess]"

definition selfDependentHeap :: heap where
  "selfDependentHeap =
     emptyHeap(0 := node virtualTaskRootID TaskInstanceStatusSuccess [1] [],
               1 := node ''S'' TaskInstanceStatusSuccess [2, 4] [0],
               2 := node ''T'' TaskInstanceStatusRunning [3] [1],
               3 := node ''U'' TaskInstanceStatusInit [] [2],
               4 := node ''A'' TaskInstanceStatusSuccess [4] [1, 4])"

text \<open>
  What a walk with \<^const>\<open>seekIdentity\<close> can return from a store \<open>h\<close>: the store
  itself, and either nothing found and the walk at its end, or the walk stopped at a
  node that carries the identity.
\<close>

definition seekShape :: "heap \<Rightarrow> string \<Rightarrow> bool \<times> heap \<times> addr option \<Rightarrow> bool" where
  "seekShape h i x =
     (case x of (go, h1, fnd) \<Rightarrow>
        h1 = h \<and> (if go then fnd = None else \<exists>v. fnd = Some v \<and> TaskInsID (h v) = i))"

section \<open>The walk hands the nodes of the walk order to its callback\<close>


lemma runOver_append:
  "runOver f (xs @ ys) s =
     (case runOver f xs s of (go, s1) \<Rightarrow> if go then runOver f ys s1 else (False, s1))"
  by (induction xs arbitrary: s) (auto split: prod.splits)

lemma runOver_heap:
  "stableWhileTrue f \<Longrightarrow> fst (runOver f vs (h, c)) \<Longrightarrow> fst (snd (runOver f vs (h, c))) = h"
proof (induction vs arbitrary: c)
  case Nil
  then show ?case by simp
next
  case (Cons v vs)
  obtain go h1 c1 where fv: "f v (h, c) = (go, h1, c1)" by (cases "f v (h, c)") auto
  with Cons.prems(2) have go: go by (auto split: if_splits)
  with fv Cons.prems(1) have "h1 = h" unfolding stableWhileTrue_def by (metis fst_conv snd_conv)
  with Cons fv go show ?case by simp
qed

lemma dfsWalk_children_runOver:
  assumes st: "stableWhileTrue f"
    and IH: "\<And>t vs c. walkOrder d h t = Some vs \<Longrightarrow>
               dfsWalk d t f False (h, c) = Some (runOver f vs (h, c))"
  shows "walkOrder_children d h cs = Some vs \<Longrightarrow>
           dfsWalk_children d cs f False (h, c) = Some (runOver f vs (h, c))"
proof (induction cs arbitrary: vs c)
  case Nil
  then show ?case by simp
next
  case (Cons c0 cs)
  show ?case
  proof (cases "1 < length (parents (h c0)) \<and> \<not> CanBeExecuted h c0")
    case True
    with Cons show ?thesis by simp
  next
    case nskip: False
    with Cons.prems obtain xs ws where
      xs: "walkOrder d h c0 = Some xs" and ws: "walkOrder_children d h cs = Some ws"
      and vs: "vs = xs @ ws"
      by (auto split: option.splits)
    obtain go h1 c1 where r: "runOver f xs (h, c) = (go, h1, c1)"
      by (cases "runOver f xs (h, c)") auto
    have w: "dfsWalk d c0 f False (h, c) = Some (go, h1, c1)"
      using IH [OF xs, of c] r by simp
    show ?thesis
    proof (cases go)
      case True
      with r runOver_heap [OF st, of xs h c] have "h1 = h" by simp
      with True nskip w r vs Cons.IH [OF ws, of c1] show ?thesis
        by (auto simp add: runOver_append)
    next
      case False
      with nskip w r vs show ?thesis
        by (auto simp add: runOver_append)
    qed
  qed
qed

lemma dfsWalk_runOver:
  assumes st: "stableWhileTrue f"
  shows "walkOrder d h t = Some vs \<Longrightarrow> dfsWalk d t f False (h, c) = Some (runOver f vs (h, c))"
proof (induction d arbitrary: t vs c)
  case 0
  then show ?case by simp
next
  case (Suc d)
  note ch = dfsWalk_children_runOver [OF st Suc.IH]
  show ?case
  proof (cases "TaskInsID (h t) \<noteq> virtualTaskRootID")
    case False
    with Suc.prems ch [of "children (h t)" _ c] show ?thesis
      by (auto split: if_splits)
  next
    case True
    obtain go h1 c1 where fv: "f t (h, c) = (go, h1, c1)" by (cases "f t (h, c)") auto
    show ?thesis
    proof (cases go)
      case False
      with True fv Suc.prems show ?thesis by (auto split: if_splits)
    next
      case go: True
      with fv st have "h1 = h" unfolding stableWhileTrue_def by (metis fst_conv snd_conv)
      with go True fv Suc.prems ch [of "children (h t)" _ c1] show ?thesis
        by (auto split: if_splits)
    qed
  qed
qed


lemma stable_ComputeStatus: "stableWhileTrue ComputeStatus_walkFunc"
  by (auto simp: stableWhileTrue_def ComputeStatus_walkFunc_def)

lemma stable_GetExecutableTaskIds: "stableWhileTrue GetExecutableTaskIds_walkFunc"
  by (auto simp: stableWhileTrue_def GetExecutableTaskIds_walkFunc_def)

lemma stable_GetNextTaskIds: "stableWhileTrue (GetNextTaskIds_walkFunc r)"
  by (auto simp: stableWhileTrue_def GetNextTaskIds_walkFunc_def Let_def)

lemma runOver_GetExecutableTaskIds:
  "runOver GetExecutableTaskIds_walkFunc vs (h, acc) =
     (True, h, acc @ map (\<lambda>v. TaskInsID (h v)) (filter (Executable h) vs))"
  by (induction vs arbitrary: acc) (auto simp: GetExecutableTaskIds_walkFunc_def)

lemma runOver_GetNextTaskIds:
  "runOver (GetNextTaskIds_walkFunc r) vs (h, ex, fnd) =
     (case List.find (\<lambda>v. TaskInsID (h v) = ID r) vs of
        None \<Rightarrow> (True, h, ex, fnd)
      | Some v \<Rightarrow> GetNextTaskIds_walkFunc r v (h, ex, fnd))"
  by (induction vs) (auto simp: GetNextTaskIds_walkFunc_def Let_def)

lemma walkOrder_children_total:
  assumes IH: "\<And>t. rk t < d \<Longrightarrow> \<exists>vs. walkOrder d h t = Some vs"
  shows "\<forall>c\<in>set cs. rk c < d \<Longrightarrow> \<exists>vs. walkOrder_children d h cs = Some vs"
proof (induction cs)
  case Nil
  then show ?case by simp
next
  case (Cons c cs)
  then obtain ws where ws: "walkOrder_children d h cs = Some ws" by auto
  from Cons.prems IH [of c] obtain xs where "walkOrder d h c = Some xs" by auto
  with ws show ?case by auto
qed

lemma walkOrder_total:
  assumes rk: "\<And>a c. c \<in> set (children (h a)) \<Longrightarrow> rk c < rk a"
  shows "rk t < d \<Longrightarrow> \<exists>vs. walkOrder d h t = Some vs"
proof (induction d arbitrary: t)
  case 0
  then show ?case by simp
next
  case (Suc d)
  have "\<forall>c\<in>set (children (h t)). rk c < d"
    using rk [of _ t] Suc.prems by fastforce
  moreover have "\<And>cs. \<forall>c\<in>set cs. rk c < d \<Longrightarrow> \<exists>vs. walkOrder_children d h cs = Some vs"
    by (rule walkOrder_children_total [of rk]) (rule Suc.IH)
  ultimately obtain vs where "walkOrder_children d h (children (h t)) = Some vs" by auto
  then show ?case by auto
qed

lemma walkOrder_children_mono:
  assumes IH: "\<And>t vs. walkOrder d h t = Some vs \<Longrightarrow> walkOrder (Suc d) h t = Some vs"
  shows "walkOrder_children d h cs = Some vs \<Longrightarrow> walkOrder_children (Suc d) h cs = Some vs"
proof (induction cs arbitrary: vs)
  case Nil
  then show ?case by simp
next
  case (Cons c cs)
  show ?case
  proof (cases "1 < length (parents (h c)) \<and> \<not> CanBeExecuted h c")
    case True
    with Cons show ?thesis by simp
  next
    case False
    with Cons.prems obtain xs ws where
      xs: "walkOrder d h c = Some xs" and ws: "walkOrder_children d h cs = Some ws"
      and vs: "vs = xs @ ws"
      by (auto split: option.splits)
    from IH [OF xs] Cons.IH [OF ws] False vs show ?thesis
      by (auto simp del: walkOrder.simps)
  qed
qed

lemma walkOrder_Suc: "walkOrder d h t = Some vs \<Longrightarrow> walkOrder (Suc d) h t = Some vs"
proof (induction d arbitrary: t vs)
  case 0
  then show ?case by simp
next
  case (Suc d)
  have ch: "\<And>cs ws. walkOrder_children d h cs = Some ws \<Longrightarrow>
                     walkOrder_children (Suc d) h cs = Some ws"
    by (rule walkOrder_children_mono) (rule Suc.IH)
  show ?case
  proof (cases "CanExecuteChild h t")
    case False
    with Suc.prems show ?thesis by simp
  next
    case True
    with Suc.prems obtain ws where ws: "walkOrder_children d h (children (h t)) = Some ws"
      and vs: "vs = (if TaskInsID (h t) \<noteq> virtualTaskRootID then [t] else []) @ ws"
      by auto
    from ch [OF ws] True vs show ?thesis by simp
  qed
qed

lemma dfsWalk_children_frame:
  assumes refl: "\<And>h. Q h h"
    and IH: "\<And>t s go s'. dfsWalk d t f ig s = Some (go, s') \<Longrightarrow>
               (go \<longrightarrow> fst s' = fst s) \<and> Q (fst s) (fst s')"
  shows "dfsWalk_children d cs f ig s = Some (go, s') \<Longrightarrow>
           (go \<longrightarrow> fst s' = fst s) \<and> Q (fst s) (fst s')"
proof (induction cs arbitrary: s)
  case Nil
  then show ?case using refl by auto
next
  case (Cons c cs)
  show ?case
  proof (cases "1 < length (parents (fst s c)) \<and> \<not> CanBeExecuted (fst s) c")
    case True
    with Cons show ?thesis by simp
  next
    case nskip: False
    with Cons.prems obtain go1 s1 where w: "dfsWalk d c f ig s = Some (go1, s1)"
      by (auto split: option.splits)
    note a = IH [OF w]
    show ?thesis
    proof (cases go1)
      case True
      with nskip w Cons.prems have "dfsWalk_children d cs f ig s1 = Some (go, s')" by auto
      from Cons.IH [OF this] a True show ?thesis by simp
    next
      case False
      with nskip w Cons.prems have "go = False" "s' = s1" by auto
      with a show ?thesis by simp
    qed
  qed
qed

lemma dfsWalk_frame:
  assumes refl: "\<And>h. Q h h"
    and step: "\<And>v s go s'. f v s = (go, s') \<Longrightarrow> (go \<longrightarrow> fst s' = fst s) \<and> Q (fst s) (fst s')"
  shows "dfsWalk d t f ig s = Some (go, s') \<Longrightarrow> (go \<longrightarrow> fst s' = fst s) \<and> Q (fst s) (fst s')"
proof (induction d arbitrary: t s go s')
  case 0
  then show ?case by simp
next
  case (Suc d)
  have ch: "\<And>cs s go s'. dfsWalk_children d cs f ig s = Some (go, s') \<Longrightarrow>
                (go \<longrightarrow> fst s' = fst s) \<and> Q (fst s) (fst s')"
    by (rule dfsWalk_children_frame [of Q]) (rule refl, rule Suc.IH)
  obtain go1 s1 where c: "(if TaskInsID (fst s t) \<noteq> virtualTaskRootID then f t s else (True, s)) = (go1, s1)"
    by (cases "(if TaskInsID (fst s t) \<noteq> virtualTaskRootID then f t s else (True, s))") auto
  have a: "(go1 \<longrightarrow> fst s1 = fst s) \<and> Q (fst s) (fst s1)"
    using c step [of t s go1 s1] refl by (auto split: if_splits)
  show ?case
  proof (cases go1)
    case False
    with c Suc.prems have "go = False" "s' = s1" by auto
    with a show ?thesis by simp
  next
    case True
    show ?thesis
    proof (cases "\<not> ig \<and> \<not> CanExecuteChild (fst s1) t")
      case True
      with \<open>go1\<close> c Suc.prems have "go = True" "s' = s1" by auto
      with a \<open>go1\<close> show ?thesis by auto
    next
      case False
      with \<open>go1\<close> c Suc.prems have "dfsWalk_children d (children (fst s1 t)) f ig s1 = Some (go, s')"
        by auto
      from ch [OF this] a \<open>go1\<close> show ?thesis by simp
    qed
  qed
qed

section \<open>The three operations in terms of the walk order\<close>

lemmas heap_eval = CanExecuteChild_def CanBeExecuted_def Executable_def node_def
  virtualTaskRootID_def emptyHeap_def

lemma build_diamond: "BuildRootNode (diamond a b c d) = Inr (diamondHeap a b c d, 0)"
  by (simp add: BuildRootNode_def buildGraphNodeMap_def diamond_def task_def diamondHeap_def
      node_def NewTaskNodeFromGetter_def AppendChild_def AppendParent_def fun_eq_iff)

lemma GetExecutableTaskIds_walkOrder:
  assumes "walkOrder d h t = Some vs"
  shows "GetExecutableTaskIds d h t =
           Inr (map (\<lambda>v. TaskInsID (h v)) (filter (Executable h) vs), h)"
  using dfsWalk_runOver [OF stable_GetExecutableTaskIds assms, of "[]"]
  by (simp add: GetExecutableTaskIds_def walkNode_def runOver_GetExecutableTaskIds)

lemma GetNextTaskIds_walkOrder:
  assumes "walkOrder d h t = Some vs"
  shows "GetNextTaskIds d h t r =
           (case List.find (\<lambda>v. TaskInsID (h v) = ID r) vs of
              None \<Rightarrow> Inr (([], False), h)
            | Some v \<Rightarrow>
                (case GetNextTaskIds_walkFunc r v (h, [], False) of
                   (go, h', res) \<Rightarrow> Inr (res, h')))"
  using dfsWalk_runOver [OF stable_GetNextTaskIds assms, of r "([], False)"]
  by (simp add: GetNextTaskIds_def walkNode_def runOver_GetNextTaskIds
      split: option.splits prod.splits)

lemma Executable_iff:
  "Executable h t \<longleftrightarrow>
     (Status (h t) = TaskInstanceStatusInit \<or> Status (h t) = TaskInstanceStatusRetrying \<or>
      Status (h t) = TaskInstanceStatusContinue \<or> Status (h t) = TaskInstanceStatusEnding) \<and>
     (parents (h t) = [] \<or>
      (\<forall>p\<in>set (parents (h t)).
         Status (h p) = TaskInstanceStatusSuccess \<or> Status (h p) = TaskInstanceStatusSkipped))"
  by (auto simp: Executable_def CanExecuteChild_def list_all_iff)

lemma diamond_D_Executable:
  "Executable (diamondHeap a b c TaskInstanceStatusInit) 4 \<longleftrightarrow>
     (b = TaskInstanceStatusSuccess \<or> b = TaskInstanceStatusSkipped) \<and>
     (c = TaskInstanceStatusSuccess \<or> c = TaskInstanceStatusSkipped)"
  by (auto simp: diamondHeap_def heap_eval)

lemma diamond_finder:
  "\<exists>ids. GetExecutableTaskIds 4 (diamondHeap a b c TaskInstanceStatusInit) 0 =
            Inr (ids, diamondHeap a b c TaskInstanceStatusInit) \<and>
         (''D'' \<in> set ids \<longleftrightarrow>
            (a = TaskInstanceStatusSuccess \<or> a = TaskInstanceStatusSkipped) \<and>
            (b = TaskInstanceStatusSuccess \<or> b = TaskInstanceStatusSkipped) \<and>
            (c = TaskInstanceStatusSuccess \<or> c = TaskInstanceStatusSkipped))"
  by (auto simp: GetExecutableTaskIds_def walkNode_def GetExecutableTaskIds_walkFunc_def
        diamondHeap_def heap_eval eval_nat_numeral)

section \<open>What the operations leave unchanged\<close>

lemma ComputeStatus_frame:
  assumes "ComputeStatus d store h t = Inr (r, h')"
  shows "h' = h"
proof (cases "children (h t)")
  case Nil
  with assms show ?thesis by (simp add: ComputeStatus_def)
next
  case (Cons c0 cs)
  show ?thesis
  proof (cases "endTaskSucceeded store (TaskInsID (h c0))")
    case True
    with Cons assms show ?thesis by (simp add: ComputeStatus_def)
  next
    case False
    with Cons assms obtain go s' where
      w: "dfsWalk d t ComputeStatus_walkFunc False (h, TreeStatusZero, []) = Some (go, s')"
      and h': "h' = fst s'"
      by (auto simp: ComputeStatus_def walkNode_def split: option.splits if_splits)
    have "\<And>v s go s'. ComputeStatus_walkFunc v s = (go, s') \<Longrightarrow>
            (go \<longrightarrow> fst s' = fst s) \<and> fst s' = fst s"
      by (auto simp: ComputeStatus_walkFunc_def split: if_splits)
    from dfsWalk_frame [where Q = "\<lambda>a b. b = a", OF _ this w] h' show ?thesis by simp
  qed
qed

lemma GetExecutableTaskIds_frame:
  assumes "GetExecutableTaskIds d h t = Inr (r, h')"
  shows "h' = h"
proof -
  from assms obtain go s' where
    w: "dfsWalk d t GetExecutableTaskIds_walkFunc False (h, []) = Some (go, s')"
    and h': "h' = fst s'"
    by (auto simp: GetExecutableTaskIds_def walkNode_def split: option.splits)
  have "\<And>v s go s'. GetExecutableTaskIds_walkFunc v s = (go, s') \<Longrightarrow>
          (go \<longrightarrow> fst s' = fst s) \<and> fst s' = fst s"
    by (auto simp: GetExecutableTaskIds_walkFunc_def)
  from dfsWalk_frame [where Q = "\<lambda>a b. b = a", OF _ this w] h' show ?thesis by simp
qed

lemma GetNextTaskIds_frame:
  assumes "GetNextTaskIds d h t r = Inr (res, h')"
  shows "h' = h \<or> (\<exists>v. TaskInsID (h v) = ID r \<and> h' = h(v := (h v)\<lparr>Status := InsStatus r\<rparr>))"
proof -
  let ?Q = "\<lambda>a b. b = a \<or> (\<exists>v. TaskInsID (a v) = ID r \<and> b = a(v := (a v)\<lparr>Status := InsStatus r\<rparr>))"
  from assms obtain go s' where
    w: "dfsWalk d t (GetNextTaskIds_walkFunc r) False (h, [], False) = Some (go, s')"
    and h': "h' = fst s'"
    by (auto simp: GetNextTaskIds_def walkNode_def split: option.splits)
  have "\<And>v s go s'. GetNextTaskIds_walkFunc r v s = (go, s') \<Longrightarrow>
          (go \<longrightarrow> fst s' = fst s) \<and> ?Q (fst s) (fst s')"
    by (auto simp: GetNextTaskIds_walkFunc_def Let_def split: if_splits)
  from dfsWalk_frame [where Q = ?Q, OF _ this w] h' show ?thesis by simp
qed

lemma find_Some_D: "List.find P xs = Some v \<Longrightarrow> P v \<and> v \<in> set xs"
  by (induction xs) (auto split: if_splits)

lemmas walk_eval = diamondHeap_def heap_eval eval_nat_numeral

section \<open>The status aggregator in terms of the walk order\<close>

lemma ComputeStatus_walkFunc_step:
  "ComputeStatus_walkFunc v (h, acc) =
     (if inFlight h v then (False, h, TreeStatusRunning, TaskInsID (h v))
      else if failedOrBlocked h v then (True, h, verdict h v)
      else (True, h, acc))"
  by (cases "Status (h v)")
    (auto simp: ComputeStatus_walkFunc_def inFlight_def failedOrBlocked_def verdict_def)

lemma runOver_ComputeStatus:
  "runOver ComputeStatus_walkFunc vs (h, acc) =
     (List.find (inFlight h) vs = None, h,
      case List.find (inFlight h) vs of
        Some v \<Rightarrow> (TreeStatusRunning, TaskInsID (h v))
      | None \<Rightarrow> (case filter (failedOrBlocked h) vs of [] \<Rightarrow> acc | f # fs \<Rightarrow> verdict h (last (f # fs))))"
proof (induction vs arbitrary: acc)
  case Nil
  then show ?case by simp
next
  case (Cons v vs)
  show ?case
    by (auto simp: ComputeStatus_walkFunc_step Cons split: option.splits list.splits)
qed

lemma ComputeStatus_walkOrder:
  assumes w: "walkOrder d h t = Some vs"
    and c: "children (h t) = c0 # cs"
    and e: "\<not> endTaskSucceeded store (TaskInsID (h c0))"
  shows "ComputeStatus d store h t = Inr (rollup h vs, h)"
  using dfsWalk_runOver [OF stable_ComputeStatus w, of "(TreeStatusZero, [])"] c e
  by (auto simp: ComputeStatus_def walkNode_def runOver_ComputeStatus rollup_def sourced_def verdict_def
      split: option.splits list.splits)


section \<open>The graph builder: the identity map\<close>

lemma loop_fails:
  "buildGraphNodeMap_loop ts m h f = Inl e \<Longrightarrow>
     \<exists>g. e = TaskIdRepeat g \<and> g \<in> GetGraphID ` set ts \<and>
         (\<not> distinct (map GetGraphID ts) \<or> g \<in> dom m)"
proof (induction ts arbitrary: m h f)
  case Nil
  then show ?case by simp
next
  case (Cons t ts)
  show ?case
  proof (cases "m (GetGraphID t)")
    case (Some a)
    with Cons.prems show ?thesis by auto
  next
    case None
    with Cons.prems have "buildGraphNodeMap_loop ts (m(GetGraphID t \<mapsto> f))
        (h(f := NewTaskNodeFromGetter t)) (Suc f) = Inl e" by simp
    from Cons.IH [OF this] obtain g where g: "e = TaskIdRepeat g" "g \<in> GetGraphID ` set ts"
      "\<not> distinct (map GetGraphID ts) \<or> g \<in> dom (m(GetGraphID t \<mapsto> f))" by blast
    show ?thesis
    proof (cases "g = GetGraphID t")
      case True
      with g show ?thesis by auto
    next
      case False
      with g show ?thesis by auto
    qed
  qed
qed

lemma loop_succeeds_iff:
  "(\<exists>r. buildGraphNodeMap_loop ts m h f = Inr r) \<longleftrightarrow>
     distinct (map GetGraphID ts) \<and> (\<forall>t\<in>set ts. m (GetGraphID t) = None)"
proof (induction ts arbitrary: m h f)
  case Nil
  then show ?case by simp
next
  case (Cons t ts)
  show ?case
  proof (cases "m (GetGraphID t)")
    case (Some a)
    then show ?thesis by auto
  next
    case None
    let ?m1 = "m(GetGraphID t \<mapsto> f)"
    let ?h1 = "h(f := NewTaskNodeFromGetter t)"
    have A: "(\<exists>r. buildGraphNodeMap_loop ts ?m1 ?h1 (Suc f) = Inr r) \<longleftrightarrow>
          distinct (map GetGraphID ts) \<and> (\<forall>ta\<in>set ts. ?m1 (GetGraphID ta) = None)"
      by (rule Cons.IH)
    have B: "(\<forall>ta\<in>set ts. ?m1 (GetGraphID ta) = None) \<longleftrightarrow>
          GetGraphID t \<notin> GetGraphID ` set ts \<and> (\<forall>ta\<in>set ts. m (GetGraphID ta) = None)"
      by (auto simp: image_iff split: if_splits)
    have C: "buildGraphNodeMap_loop (t # ts) m h f = buildGraphNodeMap_loop ts ?m1 ?h1 (Suc f)"
      using None by simp
    show ?thesis unfolding C A B using None by auto
  qed
qed

lemma loop_keeps:
  "buildGraphNodeMap_loop ts m h f = Inr (m', h') \<Longrightarrow> m g = Some a \<Longrightarrow> m' g = Some a"
proof (induction ts arbitrary: m h f)
  case Nil
  then show ?case by simp
next
  case (Cons t ts)
  from Cons.prems have n: "m (GetGraphID t) = None" by (auto split: if_splits)
  with Cons.prems have "buildGraphNodeMap_loop ts (m(GetGraphID t \<mapsto> f))
        (h(f := NewTaskNodeFromGetter t)) (Suc f) = Inr (m', h')" by simp
  moreover from n Cons.prems(2) have "(m(GetGraphID t \<mapsto> f)) g = Some a" by auto
  ultimately show ?case by (rule Cons.IH)
qed

lemma loop_dom:
  "buildGraphNodeMap_loop ts m h f = Inr (m', h') \<Longrightarrow> dom m' = dom m \<union> GetGraphID ` set ts"
proof (induction ts arbitrary: m h f)
  case Nil
  then show ?case by simp
next
  case (Cons t ts)
  from Cons.prems have n: "m (GetGraphID t) = None" by (auto split: if_splits)
  with Cons.prems have "buildGraphNodeMap_loop ts (m(GetGraphID t \<mapsto> f))
        (h(f := NewTaskNodeFromGetter t)) (Suc f) = Inr (m', h')" by simp
  from Cons.IH [OF this] show ?case by auto
qed

lemma loop_addr:
  "buildGraphNodeMap_loop ts m h f = Inr (m', h') \<Longrightarrow>
     map (\<lambda>t. m' (GetGraphID t)) ts = map Some [f ..< f + length ts]"
proof (induction ts arbitrary: m h f)
  case Nil
  then show ?case by simp
next
  case (Cons t ts)
  from Cons.prems have n: "m (GetGraphID t) = None" by (auto split: if_splits)
  with Cons.prems have r: "buildGraphNodeMap_loop ts (m(GetGraphID t \<mapsto> f))
        (h(f := NewTaskNodeFromGetter t)) (Suc f) = Inr (m', h')" by simp
  have "m' (GetGraphID t) = Some f" by (rule loop_keeps [OF r]) simp
  moreover have "[f ..< f + length (t # ts)] = f # [Suc f ..< Suc f + length ts]"
    by (simp add: upt_conv_Cons del: upt_Suc)
  ultimately show ?case using Cons.IH [OF r] by simp
qed

lemma loop_ran:
  "buildGraphNodeMap_loop ts m h f = Inr (m', h') \<Longrightarrow> m' g = Some a \<Longrightarrow>
     m g = Some a \<or> (f \<le> a \<and> a < f + length ts)"
proof (induction ts arbitrary: m h f)
  case Nil
  then show ?case by simp
next
  case (Cons t ts)
  from Cons.prems have n: "m (GetGraphID t) = None" by (auto split: if_splits)
  with Cons.prems have r: "buildGraphNodeMap_loop ts (m(GetGraphID t \<mapsto> f))
        (h(f := NewTaskNodeFromGetter t)) (Suc f) = Inr (m', h')" by simp
  from Cons.IH [OF r Cons.prems(2)] show ?case by (auto split: if_splits)
qed

lemma loop_heap:
  "buildGraphNodeMap_loop ts m h f = Inr (m', h') \<Longrightarrow>
     h' a = (if f \<le> a \<and> a < f + length ts then NewTaskNodeFromGetter (ts ! (a - f)) else h a)"
proof (induction ts arbitrary: m h f)
  case Nil
  then show ?case by auto
next
  case (Cons t ts)
  from Cons.prems have n: "m (GetGraphID t) = None" by (auto split: if_splits)
  with Cons.prems have r: "buildGraphNodeMap_loop ts (m(GetGraphID t \<mapsto> f))
        (h(f := NewTaskNodeFromGetter t)) (Suc f) = Inr (m', h')" by simp
  have "(t # ts) ! (a - f) = ts ! (a - Suc f)" if "Suc f \<le> a"
  proof -
    from that have "a - f = Suc (a - Suc f)" by arith
    then show ?thesis by simp
  qed
  with Cons.IH [OF r] show ?case by auto
qed

section \<open>The graph builder: linking one task to its dependencies\<close>

lemma linkDepend_fails:
  "linkDepend m t ds h = Inl e \<Longrightarrow> m (GetGraphID t) = Some n \<Longrightarrow>
     \<exists>d\<in>set ds. m d = None \<and> e = DependNotFound (GetGraphID t) d"
  by (induction ds arbitrary: h) (auto split: option.splits)

lemma linkDepend_succeeds_iff:
  "m (GetGraphID t) = Some n \<Longrightarrow>
     (\<exists>h'. linkDepend m t ds h = Inr h') \<longleftrightarrow> set ds \<subseteq> dom m"
  by (induction ds arbitrary: h) (auto split: option.splits)

lemma linkDepend_parents:
  "linkDepend m t ds h = Inr h' \<Longrightarrow> m (GetGraphID t) = Some n \<Longrightarrow>
     parents (h' a) = parents (h a) @ (if a = n then map (\<lambda>d. the (m d)) ds else [])"
  by (induction ds arbitrary: h)
    (auto simp: AppendChild_def AppendParent_def split: option.splits)

lemma linkDepend_children:
  "linkDepend m t ds h = Inr h' \<Longrightarrow> \<forall>d\<in>set ds. m d \<noteq> Some a \<Longrightarrow>
     children (h' a) = children (h a)"
  by (induction ds arbitrary: h)
    (auto simp: AppendChild_def AppendParent_def split: option.splits)

section \<open>The graph builder: linking all tasks\<close>

lemma linkTasks_Cons:
  "m (GetGraphID t) = Some n \<Longrightarrow>
     linkTasks root m (t # ts) h =
       (if GetDepend t = [] then linkTasks root m ts (AppendChild root n (AppendParent n root h))
        else (case linkDepend m t (GetDepend t) h of
                Inl e \<Rightarrow> Inl e
              | Inr h2 \<Rightarrow> linkTasks root m ts h2))"
  by (cases "GetDepend t") auto

lemma linkTasks_fails:
  "linkTasks root m ts h = Inl e \<Longrightarrow> \<forall>t\<in>set ts. m (GetGraphID t) \<noteq> None \<Longrightarrow>
     \<exists>t\<in>set ts. \<exists>d\<in>set (GetDepend t). m d = None \<and> e = DependNotFound (GetGraphID t) d"
proof (induction ts arbitrary: h)
  case Nil
  then show ?case by simp
next
  case (Cons t ts)
  from Cons.prems(2) obtain n where n: "m (GetGraphID t) = Some n" by auto
  from Cons.prems(2) have rest: "\<forall>t\<in>set ts. m (GetGraphID t) \<noteq> None" by simp
  show ?case
  proof (cases "GetDepend t = []")
    case True
    with Cons.prems(1) n have "linkTasks root m ts (AppendChild root n (AppendParent n root h)) = Inl e"
      by (simp add: linkTasks_Cons)
    from Cons.IH [OF this rest] show ?thesis by auto
  next
    case False
    show ?thesis
    proof (cases "linkDepend m t (GetDepend t) h")
      case (Inl e')
      with False Cons.prems(1) n have "e' = e" by (simp add: linkTasks_Cons)
      with linkDepend_fails [of m t "GetDepend t" h e' n] Inl n show ?thesis by auto
    next
      case (Inr h2)
      with False Cons.prems(1) n have "linkTasks root m ts h2 = Inl e" by (simp add: linkTasks_Cons)
      from Cons.IH [OF this rest] show ?thesis by auto
    qed
  qed
qed

lemma linkTasks_succeeds_iff:
  "\<forall>t\<in>set ts. m (GetGraphID t) \<noteq> None \<Longrightarrow>
     (\<exists>h'. linkTasks root m ts h = Inr h') \<longleftrightarrow> (\<forall>t\<in>set ts. set (GetDepend t) \<subseteq> dom m)"
proof (induction ts arbitrary: h)
  case Nil
  then show ?case by simp
next
  case (Cons t ts)
  from Cons.prems obtain n where n: "m (GetGraphID t) = Some n" by auto
  from Cons.prems have rest: "\<forall>t\<in>set ts. m (GetGraphID t) \<noteq> None" by simp
  note IH = Cons.IH [OF rest]
  show ?case
  proof (cases "GetDepend t = []")
    case True
    with n IH [of "AppendChild root n (AppendParent n root h)"] show ?thesis
      by (simp add: linkTasks_Cons)
  next
    case False
    show ?thesis
    proof (cases "linkDepend m t (GetDepend t) h")
      case (Inl e')
      with linkDepend_succeeds_iff [of m t n "GetDepend t" h] n have "\<not> set (GetDepend t) \<subseteq> dom m"
        by auto
      with Inl False n show ?thesis by (simp add: linkTasks_Cons)
    next
      case (Inr h2)
      with linkDepend_succeeds_iff [of m t n "GetDepend t" h] n have "set (GetDepend t) \<subseteq> dom m"
        by auto
      with Inr False n IH [of h2] show ?thesis by (simp add: linkTasks_Cons)
    qed
  qed
qed

lemma linkTasks_parents:
  "linkTasks root m ts h = Inr h' \<Longrightarrow> \<forall>t\<in>set ts. m (GetGraphID t) \<noteq> None \<Longrightarrow>
     parents (h' a) = parents (h a) @
       concat (map (\<lambda>t. if m (GetGraphID t) = Some a
                         then (if GetDepend t = [] then [root] else map (\<lambda>d. the (m d)) (GetDepend t))
                         else []) ts)"
proof (induction ts arbitrary: h)
  case Nil
  then show ?case by simp
next
  case (Cons t ts)
  from Cons.prems(2) obtain n where n: "m (GetGraphID t) = Some n" by auto
  from Cons.prems(2) have rest: "\<forall>t\<in>set ts. m (GetGraphID t) \<noteq> None" by simp
  show ?case
  proof (cases "GetDepend t = []")
    case True
    with Cons.prems(1) n have "linkTasks root m ts (AppendChild root n (AppendParent n root h)) = Inr h'"
      by (simp add: linkTasks_Cons)
    from Cons.IH [OF this rest] True n show ?thesis
      by (auto simp: AppendChild_def AppendParent_def)
  next
    case False
    with Cons.prems(1) n obtain h2 where h2: "linkDepend m t (GetDepend t) h = Inr h2"
      and r: "linkTasks root m ts h2 = Inr h'"
      by (auto simp: linkTasks_Cons split: sum.splits)
    from Cons.IH [OF r rest] linkDepend_parents [of m t "GetDepend t" h h2 n a] h2 n False n show ?thesis
      by auto
  qed
qed

lemma linkTasks_children_root:
  "linkTasks root m ts h = Inr h' \<Longrightarrow> \<forall>t\<in>set ts. m (GetGraphID t) \<noteq> None \<Longrightarrow>
     \<forall>g. m g \<noteq> Some root \<Longrightarrow>
     children (h' root) = children (h root) @
       map (\<lambda>t. the (m (GetGraphID t))) (filter (\<lambda>t. GetDepend t = []) ts)"
proof (induction ts arbitrary: h)
  case Nil
  then show ?case by simp
next
  case (Cons t ts)
  from Cons.prems(2) obtain n where n: "m (GetGraphID t) = Some n" by auto
  from Cons.prems(2) have rest: "\<forall>t\<in>set ts. m (GetGraphID t) \<noteq> None" by simp
  from n Cons.prems(3) have nr: "n \<noteq> root" by auto
  show ?case
  proof (cases "GetDepend t = []")
    case True
    with Cons.prems(1) n have "linkTasks root m ts (AppendChild root n (AppendParent n root h)) = Inr h'"
      by (simp add: linkTasks_Cons)
    from Cons.IH [OF this rest Cons.prems(3)] True n nr show ?thesis
      by (auto simp: AppendChild_def AppendParent_def)
  next
    case False
    with Cons.prems(1) n obtain h2 where h2: "linkDepend m t (GetDepend t) h = Inr h2"
      and r: "linkTasks root m ts h2 = Inr h'"
      by (auto simp: linkTasks_Cons split: sum.splits)
    have "children (h2 root) = children (h root)"
      by (rule linkDepend_children [OF h2]) (use Cons.prems(3) in auto)
    with Cons.IH [OF r rest Cons.prems(3)] False show ?thesis by simp
  qed
qed

lemma concat_single_match:
  "distinct (map k ts) \<Longrightarrow> t0 \<in> set ts \<Longrightarrow>
     concat (map (\<lambda>t. if k t = k t0 then F t else []) ts) = F t0"
proof (induction ts)
  case Nil
  then show ?case by simp
next
  case (Cons t ts)
  show ?case
  proof (cases "t = t0")
    case True
    from Cons.prems(1) have "\<forall>x\<in>set ts. k x \<noteq> k t" by (auto simp: image_iff)
    then have "concat (map (\<lambda>x. if k x = k t then F x else []) ts) = []"
      by (induction ts) auto
    with True show ?thesis by simp
  next
    case False
    with Cons.prems have "t0 \<in> set ts" "k t \<noteq> k t0" by (auto simp: image_iff)
    with Cons show ?thesis by simp
  qed
qed

section \<open>The graph builder: the four outcomes\<close>

lemma BuildRootNode_unfold:
  "BuildRootNode tasks =
     (case buildGraphNodeMap_loop tasks Map.empty rootHeap (Suc 0) of
        Inl e \<Rightarrow> Inl e
      | Inr (m, h1) \<Rightarrow>
          (case linkTasks 0 m tasks h1 of
             Inl e \<Rightarrow> Inl e
           | Inr h2 \<Rightarrow> if children (h2 0) = [] then Inl NoStartNodes else Inr (h2, 0)))"
  by (simp add: BuildRootNode_def buildGraphNodeMap_def rootHeap_def Let_def
      split: sum.splits prod.splits)

lemma BuildRootNode_repeat:
  assumes "\<not> distinct (map GetGraphID tasks)"
  shows "\<exists>g\<in>GetGraphID ` set tasks. BuildRootNode tasks = Inl (TaskIdRepeat g)"
proof -
  from assms loop_succeeds_iff [of tasks Map.empty rootHeap "Suc 0"]
  obtain e where e: "buildGraphNodeMap_loop tasks Map.empty rootHeap (Suc 0) = Inl e"
    by (cases "buildGraphNodeMap_loop tasks Map.empty rootHeap (Suc 0)") auto
  from loop_fails [OF e] e show ?thesis by (auto simp: BuildRootNode_unfold)
qed

lemma BuildRootNode_distinct:
  assumes d: "distinct (map GetGraphID tasks)"
  obtains m h1 where
    "buildGraphNodeMap_loop tasks Map.empty rootHeap (Suc 0) = Inr (m, h1)"
    "dom m = GetGraphID ` set tasks"
    "\<forall>t\<in>set tasks. m (GetGraphID t) \<noteq> None"
    "\<forall>g. m g \<noteq> Some 0"
    "distinct (map (\<lambda>t. m (GetGraphID t)) tasks)"
    "children (h1 0) = []"
    "\<forall>g a. m g = Some a \<longrightarrow> parents (h1 a) = []"
proof -
  from d loop_succeeds_iff [of tasks Map.empty rootHeap "Suc 0"]
  obtain m h1 where r: "buildGraphNodeMap_loop tasks Map.empty rootHeap (Suc 0) = Inr (m, h1)"
    by auto
  have dm: "dom m = GetGraphID ` set tasks" using loop_dom [OF r] by simp
  then have ne: "\<forall>t\<in>set tasks. m (GetGraphID t) \<noteq> None" by auto
  have rn: "Suc 0 \<le> a \<and> a < Suc 0 + length tasks" if "m g = Some a" for g a
    using loop_ran [OF r that] by simp
  then have n0: "\<forall>g. m g \<noteq> Some 0" by fastforce
  have "map (\<lambda>t. m (GetGraphID t)) tasks = map Some [Suc 0 ..< Suc 0 + length tasks]"
    by (rule loop_addr [OF r])
  then have di: "distinct (map (\<lambda>t. m (GetGraphID t)) tasks)"
    by (simp add: distinct_map)
  have c0: "children (h1 0) = []"
    using loop_heap [OF r, of 0] by (simp add: rootHeap_def)
  have pa: "\<forall>g a. m g = Some a \<longrightarrow> parents (h1 a) = []"
    using loop_heap [OF r] rn by (auto simp: NewTaskNodeFromGetter_def)
  from r dm ne n0 di c0 pa show ?thesis by (rule that)
qed

lemma BuildRootNode_depend:
  assumes d: "distinct (map GetGraphID tasks)"
    and miss: "\<not> (\<forall>t\<in>set tasks. \<forall>d\<in>set (GetDepend t). d \<in> GetGraphID ` set tasks)"
  shows "\<exists>t\<in>set tasks. \<exists>d\<in>set (GetDepend t). d \<notin> GetGraphID ` set tasks \<and>
           BuildRootNode tasks = Inl (DependNotFound (GetGraphID t) d)"
proof -
  from d obtain m h1 where r: "buildGraphNodeMap_loop tasks Map.empty rootHeap (Suc 0) = Inr (m, h1)"
    and dm: "dom m = GetGraphID ` set tasks"
    and ne: "\<forall>t\<in>set tasks. m (GetGraphID t) \<noteq> None"
    by (rule BuildRootNode_distinct)
  from miss dm have "\<not> (\<forall>t\<in>set tasks. set (GetDepend t) \<subseteq> dom m)" by auto
  with linkTasks_succeeds_iff [OF ne, of 0 h1]
  obtain e where e: "linkTasks 0 m tasks h1 = Inl e"
    by (cases "linkTasks 0 m tasks h1") auto
  from linkTasks_fails [OF e ne] obtain t x where
    "t \<in> set tasks" "x \<in> set (GetDepend t)" "m x = None" "e = DependNotFound (GetGraphID t) x"
    by blast
  moreover from \<open>m x = None\<close> dm have "x \<notin> GetGraphID ` set tasks" by auto
  ultimately show ?thesis using r e by (auto simp: BuildRootNode_unfold)
qed

lemma BuildRootNode_linked:
  assumes d: "distinct (map GetGraphID tasks)"
    and pres: "\<forall>t\<in>set tasks. \<forall>d\<in>set (GetDepend t). d \<in> GetGraphID ` set tasks"
  obtains m h1 h2 where
    "buildGraphNodeMap_loop tasks Map.empty rootHeap (Suc 0) = Inr (m, h1)"
    "linkTasks 0 m tasks h1 = Inr h2"
    "children (h2 0) = map (\<lambda>t. the (m (GetGraphID t))) (filter (\<lambda>t. GetDepend t = []) tasks)"
    "\<forall>t\<in>set tasks. GetDepend t = [] \<longrightarrow> parents (h2 (the (m (GetGraphID t)))) = [0]"
proof -
  from d obtain m h1 where r: "buildGraphNodeMap_loop tasks Map.empty rootHeap (Suc 0) = Inr (m, h1)"
    and dm: "dom m = GetGraphID ` set tasks"
    and ne: "\<forall>t\<in>set tasks. m (GetGraphID t) \<noteq> None"
    and n0: "\<forall>g. m g \<noteq> Some 0"
    and di: "distinct (map (\<lambda>t. m (GetGraphID t)) tasks)"
    and c0: "children (h1 0) = []"
    and pa: "\<forall>g a. m g = Some a \<longrightarrow> parents (h1 a) = []"
    by (rule BuildRootNode_distinct)
  from pres dm have "\<forall>t\<in>set tasks. set (GetDepend t) \<subseteq> dom m" by auto
  with linkTasks_succeeds_iff [OF ne, of 0 h1]
  obtain h2 where l: "linkTasks 0 m tasks h1 = Inr h2" by auto
  have ch: "children (h2 0) =
      map (\<lambda>t. the (m (GetGraphID t))) (filter (\<lambda>t. GetDepend t = []) tasks)"
    using linkTasks_children_root [OF l ne n0] c0 by simp
  have "parents (h2 (the (m (GetGraphID t0)))) = [0]"
    if t0: "t0 \<in> set tasks" and z: "GetDepend t0 = []" for t0
  proof -
    from ne t0 obtain a where a: "m (GetGraphID t0) = Some a" by auto
    let ?F = "\<lambda>t. if GetDepend t = [] then [0] else map (\<lambda>d. the (m d)) (GetDepend t)"
    have "parents (h2 a) = parents (h1 a) @
        concat (map (\<lambda>t. if m (GetGraphID t) = Some a then ?F t else []) tasks)"
      by (rule linkTasks_parents [OF l ne])
    also have "(\<lambda>t. if m (GetGraphID t) = Some a then ?F t else []) =
        (\<lambda>t. if m (GetGraphID t) = m (GetGraphID t0) then ?F t else [])"
      using a by simp
    also have "concat (map (\<lambda>t. if m (GetGraphID t) = m (GetGraphID t0) then ?F t else []) tasks) =
        ?F t0"
      by (rule concat_single_match [where k = "\<lambda>t. m (GetGraphID t)", OF di t0])
    finally show ?thesis using a pa z by simp
  qed
  then have "\<forall>t\<in>set tasks. GetDepend t = [] \<longrightarrow> parents (h2 (the (m (GetGraphID t)))) = [0]"
    by blast
  with r l ch show ?thesis by (rule that)
qed

lemma BuildRootNode_no_start:
  assumes d: "distinct (map GetGraphID tasks)"
    and pres: "\<forall>t\<in>set tasks. \<forall>d\<in>set (GetDepend t). d \<in> GetGraphID ` set tasks"
    and none: "\<not> (\<exists>t\<in>set tasks. GetDepend t = [])"
  shows "BuildRootNode tasks = Inl NoStartNodes"
proof -
  from d pres obtain m h1 h2 where
    r: "buildGraphNodeMap_loop tasks Map.empty rootHeap (Suc 0) = Inr (m, h1)"
    and l: "linkTasks 0 m tasks h1 = Inr h2"
    and ch: "children (h2 0) =
      map (\<lambda>t. the (m (GetGraphID t))) (filter (\<lambda>t. GetDepend t = []) tasks)"
    by (rule BuildRootNode_linked)
  from none have "filter (\<lambda>t. GetDepend t = []) tasks = []" by (auto simp: filter_empty_conv)
  with r l ch show ?thesis by (simp add: BuildRootNode_unfold)
qed

lemma BuildRootNode_success:
  assumes d: "distinct (map GetGraphID tasks)"
    and pres: "\<forall>t\<in>set tasks. \<forall>d\<in>set (GetDepend t). d \<in> GetGraphID ` set tasks"
    and some: "\<exists>t\<in>set tasks. GetDepend t = []"
  shows "\<exists>h. BuildRootNode tasks = Inr (h, 0) \<and> children (h 0) \<noteq> [] \<and>
           (\<forall>c\<in>set (children (h 0)). parents (h c) = [0])"
proof -
  from d pres obtain m h1 h2 where
    r: "buildGraphNodeMap_loop tasks Map.empty rootHeap (Suc 0) = Inr (m, h1)"
    and l: "linkTasks 0 m tasks h1 = Inr h2"
    and ch: "children (h2 0) =
      map (\<lambda>t. the (m (GetGraphID t))) (filter (\<lambda>t. GetDepend t = []) tasks)"
    and pa: "\<forall>t\<in>set tasks. GetDepend t = [] \<longrightarrow> parents (h2 (the (m (GetGraphID t)))) = [0]"
    by (rule BuildRootNode_linked)
  from some have "filter (\<lambda>t. GetDepend t = []) tasks \<noteq> []" by (auto simp: filter_empty_conv)
  with ch have ne: "children (h2 0) \<noteq> []" by simp
  with r l have "BuildRootNode tasks = Inr (h2, 0)" by (simp add: BuildRootNode_unfold)
  moreover from ch pa have "\<forall>c\<in>set (children (h2 0)). parents (h2 c) = [0]" by auto
  ultimately show ?thesis using ne by blast
qed

lemma resolved_Suc: "resolved h k v \<Longrightarrow> resolved h (Suc k) v"
proof (induction k arbitrary: v)
  case 0
  then show ?case by simp
next
  case (Suc k)
  then show ?case by (auto simp: list_all_iff)
qed

lemma resolved_le: "resolved h k v \<Longrightarrow> k \<le> k' \<Longrightarrow> resolved h k' v"
  by (induction k') (auto simp: le_Suc_eq simp del: resolved.simps intro: resolved_Suc)

lemma resolvable_level: "resolvable h v \<Longrightarrow> resolved h (Suc (level h v)) v"
proof -
  assume "resolvable h v"
  then obtain k where k: "resolved h k v" by (auto simp: resolvable_def)
  then have "resolved h (Suc k) v" by (rule resolved_Suc)
  then show ?thesis unfolding level_def by (rule LeastI)
qed

lemma level_le: "resolved h (Suc k) v \<Longrightarrow> level h v \<le> k"
  unfolding level_def by (rule Least_le)

lemma level_parents:
  assumes "resolvable h v" and "p \<in> set (parents (h v))"
  shows "resolvable h p \<and> level h p < level h v"
proof -
  from resolvable_level [OF assms(1)] assms(2) have r: "resolved h (level h v) p"
    by (auto simp: list_all_iff)
  then obtain j where j: "level h v = Suc j" by (cases "level h v") auto
  with r have "level h p \<le> j" by (auto simp del: resolved.simps intro: level_le)
  moreover from r have "resolvable h p" unfolding resolvable_def by blast
  ultimately show ?thesis using j by simp
qed

lemma level_zero:
  assumes "resolvable h v" and "level h v = 0"
  shows "parents (h v) = []"
proof (rule ccontr)
  assume "parents (h v) \<noteq> []"
  then obtain p where "p \<in> set (parents (h v))" by (cases "parents (h v)") auto
  from level_parents [OF assms(1) this] assms(2) show False by simp
qed

lemma level_Suc_parent:
  assumes "resolvable h v" and "level h v = Suc j"
  shows "\<exists>p\<in>set (parents (h v)). resolvable h p \<and> level h p = j"
proof -
  have "\<not> resolved h (Suc j) v"
  proof
    assume "resolved h (Suc j) v"
    then have "level h v \<le> j" by (rule level_le)
    with assms(2) show False by simp
  qed
  then obtain p where p: "p \<in> set (parents (h v))" "\<not> resolved h j p"
    by (auto simp: list_all_iff)
  from level_parents [OF assms(1) p(1)] assms(2) have rp: "resolvable h p" "level h p \<le> j"
    by auto
  have "\<not> level h p < j"
  proof
    assume "level h p < j"
    then have "Suc (level h p) \<le> j" by simp
    from resolved_le [OF resolvable_level [OF rp(1)] this] p(2) show False by simp
  qed
  with rp p(1) show ?thesis by auto
qed

lemma resolvable_parents:
  assumes "\<forall>p\<in>set (parents (h v)). resolvable h p"
  shows "resolvable h v"
proof -
  have "\<exists>k. \<forall>p\<in>set ps. resolved h k p" if "\<forall>p\<in>set ps. resolvable h p" for ps
    using that
  proof (induction ps)
    case Nil
    then show ?case by simp
  next
    case (Cons a ps)
    then obtain k where k: "\<forall>p\<in>set ps. resolved h k p" by auto
    from Cons.prems obtain j where j: "resolved h j a" by (auto simp: resolvable_def)
    have "\<forall>p\<in>set (a # ps). resolved h (max j k) p"
      using k j by (auto intro: resolved_le)
    then show ?case by blast
  qed
  from this [OF assms] obtain k where "\<forall>p\<in>set (parents (h v)). resolved h k p" by blast
  then have "resolved h (Suc k) v" by (simp add: list_all_iff)
  then show ?thesis unfolding resolvable_def by blast
qed

lemma rank_resolvable:
  assumes "\<And>v p. p \<in> set (parents (h v)) \<Longrightarrow> rk p < (rk v :: nat)"
  shows "resolvable h v"
proof (induction "rk v" arbitrary: v rule: less_induct)
  case less
  show ?case
  proof (rule resolvable_parents, rule ballI)
    fix p assume "p \<in> set (parents (h v))"
    then have "rk p < rk v" by (rule assms)
    then show "resolvable h p" by (rule less)
  qed
qed

section \<open>Facts about the node being processed\<close>

lemma wl_parent_le: "wellLinked h root n \<Longrightarrow> p \<in> set (parents (h v)) \<Longrightarrow> p \<le> n"
  by (auto simp: wellLinked_def)

lemma wl_child_le: "wellLinked h root n \<Longrightarrow> c \<in> set (children (h v)) \<Longrightarrow> c \<le> n"
  by (auto simp: wellLinked_def)

lemma wl_sym: "wellLinked h root n \<Longrightarrow> c \<in> set (children (h p)) \<longleftrightarrow> p \<in> set (parents (h c))"
  by (auto simp: wellLinked_def)

lemma wl_root: "wellLinked h root n \<Longrightarrow> root \<le> n \<and> parents (h root) = []"
  by (auto simp: wellLinked_def)

lemma root_resolvable: "wellLinked h root n \<Longrightarrow> resolvable h root"
  by (rule resolvable_parents) (simp add: wl_root)

lemma qOK_level:
  assumes "qOK h root n g q" "v \<in> set q" "resolvable h v"
  shows "g \<le> level h v"
proof -
  from assms(1,2) consider "g = 0" | p where "p \<in> set (parents (h v))" "g \<le> Suc (level h p)"
    by (auto simp: qOK_def)
  then show ?thesis
  proof cases
    case 1
    then show ?thesis by simp
  next
    case 2
    from level_parents [OF assms(3) 2(1)] 2(2) show ?thesis by simp
  qed
qed

lemma completed_resolvable:
  assumes wl: "wellLinked h root n" and own: "ownIdentity h n"
    and vs: "visSound h n visited" and c: "isParentCompleted h visited cur"
  shows "resolvable h cur"
proof (rule resolvable_parents, rule ballI)
  fix p assume p: "p \<in> set (parents (h cur))"
  with c have "TaskInsID (h p) \<in> visited" by (auto simp: isParentCompleted_def list_all_iff)
  with vs obtain v where v: "v \<le> n" "resolvable h v" "TaskInsID (h v) = TaskInsID (h p)"
    by (auto simp: visSound_def)
  from wl p have pn: "p \<le> n" by (rule wl_parent_le)
  show "resolvable h p"
  proof (rule ccontr)
    assume "\<not> resolvable h p"
    with own pn v have "v = p" by (auto simp: ownIdentity_def)
    with v \<open>\<not> resolvable h p\<close> show False by simp
  qed
qed

lemma level_g_completed:
  assumes wl: "wellLinked h root n" and vo: "visOK h n g (cur # rest) visited"
    and r: "resolvable h cur" and l: "level h cur = g"
  shows "isParentCompleted h visited cur"
  unfolding isParentCompleted_def list_all_iff
proof
  fix p assume p: "p \<in> set (parents (h cur))"
  from level_parents [OF r p] l have "resolvable h p" "level h p < g" by auto
  moreover from wl p have "p \<le> n" by (rule wl_parent_le)
  ultimately show "TaskInsID (h p) \<in> visited" using vo by (auto simp: visOK_def)
qed

section \<open>One iteration of the loop: the node passes\<close>

lemma pass_qOK_rest: "qOK h root n g (cur # rest) \<Longrightarrow> qOK h root n g rest"
  by (simp add: qOK_def)

lemma pass_qOK_app:
  assumes wl: "wellLinked h root n" and q: "qOK h root n g (cur # rest)"
    and a: "qOK h root n (Suc g) app" and r: "resolvable h cur"
  shows "qOK h root n (Suc g) (app @ children (h cur))"
proof -
  have gl: "g \<le> level h cur" by (rule qOK_level [OF q _ r]) simp
  have "c \<le> n \<and> (\<exists>p\<in>set (parents (h c)). resolvable h p \<and> Suc g \<le> Suc (level h p))"
    if "c \<in> set (children (h cur))" for c
    using that wl r gl wl_child_le [OF wl that] by (auto simp: wl_sym [OF wl])
  with a show ?thesis by (auto simp: qOK_def)
qed

lemma pass_coverR:
  assumes wl: "wellLinked h root n" and c: "coverR h n g (cur # rest) app"
  shows "coverR h n g rest (app @ children (h cur))"
  unfolding coverR_def
proof (intro allI impI)
  fix v assume v: "v \<le> n" "resolvable h v \<and> level h v = Suc g"
  with c consider "v \<in> set app"
    | p where "p \<in> set (parents (h v))" "resolvable h p" "level h p = g" "p \<in> set (cur # rest)"
    by (auto simp: coverR_def)
  then show "v \<in> set (app @ children (h cur)) \<or>
      (\<exists>p\<in>set (parents (h v)). resolvable h p \<and> level h p = g \<and> p \<in> set rest)"
  proof cases
    case 1
    then show ?thesis by simp
  next
    case 2
    show ?thesis
    proof (cases "p = cur")
      case True
      with 2(1) have "v \<in> set (children (h cur))" by (simp add: wl_sym [OF wl])
      then show ?thesis by simp
    next
      case False
      with 2 show ?thesis by auto
    qed
  qed
qed

lemma pass_coverU:
  assumes wl: "wellLinked h root n" and c: "coverU h n g (cur # rest) app"
  shows "coverU h n g rest (app @ children (h cur))"
  unfolding coverU_def
proof (intro allI impI ballI)
  fix w p assume w: "w \<le> n" "\<not> resolvable h w" and p: "p \<in> set (parents (h w))"
    "resolvable h p \<and> level h p = g"
  with c have "w \<in> set app \<or> p \<in> set (cur # rest)" by (auto simp: coverU_def)
  moreover have "w \<in> set (children (h cur))" if "p = cur"
    using that p(1) by (simp add: wl_sym [OF wl])
  ultimately show "w \<in> set (app @ children (h cur)) \<or> p \<in> set rest" by auto
qed

lemma pass_visOK:
  assumes "visOK h n g (cur # rest) visited"
  shows "visOK h n g rest (insert (TaskInsID (h cur)) visited)"
  using assms by (auto simp: visOK_def)

lemma pass_visSound:
  assumes "visSound h n visited" "cur \<le> n" "resolvable h cur"
  shows "visSound h n (insert (TaskInsID (h cur)) visited)"
  using assms by (auto simp: visSound_def)

lemma pass_incOK:
  assumes "incOK h n g (cur # rest) incomplete"
  shows "incOK h n g rest (incomplete(TaskInsID (h cur) := None))"
  unfolding incOK_def
proof (intro allI impI)
  fix k w assume e: "(incomplete(TaskInsID (h cur) := None)) k = Some w"
  then have k: "k \<noteq> TaskInsID (h cur)" and i: "incomplete k = Some w"
    by (auto split: if_splits)
  from assms i have a: "w \<le> n" "TaskInsID (h w) = k"
    "resolvable h w \<longrightarrow> Suc g \<le> level h w \<or> (level h w = g \<and> w \<in> set (cur # rest))"
    "\<not> resolvable h w \<longrightarrow> (\<exists>p\<in>set (parents (h w)). resolvable h p)"
    by (auto simp: incOK_def)
  from a(2) k have "w \<noteq> cur" by auto
  with a show "w \<le> n \<and> TaskInsID (h w) = k \<and>
      (resolvable h w \<longrightarrow> Suc g \<le> level h w \<or> (level h w = g \<and> w \<in> set rest)) \<and>
      (\<not> resolvable h w \<longrightarrow> (\<exists>p\<in>set (parents (h w)). resolvable h p))"
    by auto
qed

lemma pass_incAll:
  assumes own: "ownIdentity h n" and ia: "incAll h n g (cur # rest) incomplete"
    and cn: "cur \<le> n" and r: "resolvable h cur"
  shows "incAll h n g rest (incomplete(TaskInsID (h cur) := None))"
  unfolding incAll_def
proof (intro allI impI)
  fix w assume w: "w \<le> n" "\<not> resolvable h w"
    and e: "\<exists>p\<in>set (parents (h w)). resolvable h p \<and>
           (Suc (level h p) < g \<or> (Suc (level h p) = g \<and> w \<notin> set rest))"
  from w r have wc: "w \<noteq> cur" by auto
  with e have "\<exists>p\<in>set (parents (h w)). resolvable h p \<and>
           (Suc (level h p) < g \<or> (Suc (level h p) = g \<and> w \<notin> set (cur # rest)))"
    by auto
  with ia w have i: "incomplete (TaskInsID (h w)) = Some w" by (auto simp: incAll_def)
  from own w cn wc have "TaskInsID (h cur) \<noteq> TaskInsID (h w)" by (auto simp: ownIdentity_def)
  with i show "(incomplete(TaskInsID (h cur) := None)) (TaskInsID (h w)) = Some w" by simp
qed

lemma loopInv_pass:
  assumes wl: "wellLinked h root n" and own: "ownIdentity h n"
    and inv: "loopInv h root n g (cur # rest) visited incomplete app"
    and c: "isParentCompleted h visited cur"
  shows "loopInv h root n g rest (insert (TaskInsID (h cur)) visited)
           (incomplete(TaskInsID (h cur) := None)) (app @ children (h cur))"
proof -
  from inv have q: "qOK h root n g (cur # rest)" and a: "qOK h root n (Suc g) app"
    and cr: "coverR h n g (cur # rest) app" and cu: "coverU h n g (cur # rest) app"
    and vo: "visOK h n g (cur # rest) visited" and vs: "visSound h n visited"
    and io: "incOK h n g (cur # rest) incomplete" and ia: "incAll h n g (cur # rest) incomplete"
    by (simp_all add: loopInv_def)
  from q have cn: "cur \<le> n" by (simp add: qOK_def)
  have r: "resolvable h cur" by (rule completed_resolvable [OF wl own vs c])
  show ?thesis unfolding loopInv_def
    using pass_qOK_rest [OF q] pass_qOK_app [OF wl q a r] pass_coverR [OF wl cr]
      pass_coverU [OF wl cu] pass_visOK [OF vo] pass_visSound [OF vs cn r] pass_incOK [OF io]
      pass_incAll [OF own ia cn r]
    by blast
qed

section \<open>One iteration of the loop: the node is parked\<close>

lemma park_not_level_g:
  assumes wl: "wellLinked h root n" and vo: "visOK h n g (cur # rest) visited"
    and c: "\<not> isParentCompleted h visited cur"
  shows "\<not> (resolvable h cur \<and> level h cur = g)"
  using level_g_completed [OF wl vo] c by blast

lemma park_coverR:
  assumes nl: "\<not> (resolvable h cur \<and> level h cur = g)" and c: "coverR h n g (cur # rest) app"
  shows "coverR h n g rest app"
  using assms unfolding coverR_def by (metis set_ConsD)

lemma park_coverU:
  assumes nl: "\<not> (resolvable h cur \<and> level h cur = g)" and c: "coverU h n g (cur # rest) app"
  shows "coverU h n g rest app"
  using assms unfolding coverU_def by (metis set_ConsD)

lemma park_visOK:
  assumes nl: "\<not> (resolvable h cur \<and> level h cur = g)" and c: "visOK h n g (cur # rest) visited"
  shows "visOK h n g rest visited"
  using assms unfolding visOK_def by (metis set_ConsD)

lemma park_incOK:
  assumes wl: "wellLinked h root n" and nl: "\<not> (resolvable h cur \<and> level h cur = g)"
    and q: "qOK h root n g (cur # rest)" and io: "incOK h n g (cur # rest) incomplete"
  shows "incOK h n g rest (incomplete(TaskInsID (h cur) \<mapsto> cur))"
  unfolding incOK_def
proof (intro allI impI)
  fix k w assume e: "(incomplete(TaskInsID (h cur) \<mapsto> cur)) k = Some w"
  show "w \<le> n \<and> TaskInsID (h w) = k \<and>
      (resolvable h w \<longrightarrow> Suc g \<le> level h w \<or> (level h w = g \<and> w \<in> set rest)) \<and>
      (\<not> resolvable h w \<longrightarrow> (\<exists>p\<in>set (parents (h w)). resolvable h p))"
  proof (cases "k = TaskInsID (h cur)")
    case True
    with e have wc: "w = cur" by simp
    from q have cn: "cur \<le> n" by (simp add: qOK_def)
    have "Suc g \<le> level h cur" if "resolvable h cur"
    proof -
      have "g \<le> level h cur" by (rule qOK_level [OF q _ that]) simp
      with nl that show ?thesis by auto
    qed
    moreover have "\<exists>p\<in>set (parents (h cur)). resolvable h p" if "\<not> resolvable h cur"
    proof -
      from that root_resolvable [OF wl] have "cur \<noteq> root" by auto
      with q show ?thesis by (auto simp: qOK_def)
    qed
    ultimately show ?thesis using wc cn True by auto
  next
    case False
    with e have i: "incomplete k = Some w" by simp
    from io i have a: "w \<le> n" "TaskInsID (h w) = k"
      "resolvable h w \<longrightarrow> Suc g \<le> level h w \<or> (level h w = g \<and> w \<in> set (cur # rest))"
      "\<not> resolvable h w \<longrightarrow> (\<exists>p\<in>set (parents (h w)). resolvable h p)"
      by (auto simp: incOK_def)
    from a(2) False have "w \<noteq> cur" by auto
    with a show ?thesis by auto
  qed
qed

lemma park_incAll:
  assumes own: "ownIdentity h n" and ia: "incAll h n g (cur # rest) incomplete"
    and cn: "cur \<le> n"
  shows "incAll h n g rest (incomplete(TaskInsID (h cur) \<mapsto> cur))"
  unfolding incAll_def
proof (intro allI impI)
  fix w assume w: "w \<le> n" "\<not> resolvable h w"
    and e: "\<exists>p\<in>set (parents (h w)). resolvable h p \<and>
           (Suc (level h p) < g \<or> (Suc (level h p) = g \<and> w \<notin> set rest))"
  show "(incomplete(TaskInsID (h cur) \<mapsto> cur)) (TaskInsID (h w)) = Some w"
  proof (cases "w = cur")
    case True
    then show ?thesis by simp
  next
    case False
    with e have "\<exists>p\<in>set (parents (h w)). resolvable h p \<and>
           (Suc (level h p) < g \<or> (Suc (level h p) = g \<and> w \<notin> set (cur # rest)))"
      by auto
    with ia w have i: "incomplete (TaskInsID (h w)) = Some w" by (auto simp: incAll_def)
    from own w cn False have "TaskInsID (h cur) \<noteq> TaskInsID (h w)" by (auto simp: ownIdentity_def)
    with i show ?thesis by simp
  qed
qed

lemma loopInv_park:
  assumes wl: "wellLinked h root n" and own: "ownIdentity h n"
    and inv: "loopInv h root n g (cur # rest) visited incomplete app"
    and c: "\<not> isParentCompleted h visited cur"
  shows "loopInv h root n g rest visited (incomplete(TaskInsID (h cur) \<mapsto> cur)) app"
proof -
  from inv have q: "qOK h root n g (cur # rest)" and a: "qOK h root n (Suc g) app"
    and cr: "coverR h n g (cur # rest) app" and cu: "coverU h n g (cur # rest) app"
    and vo: "visOK h n g (cur # rest) visited" and vs: "visSound h n visited"
    and io: "incOK h n g (cur # rest) incomplete" and ia: "incAll h n g (cur # rest) incomplete"
    by (simp_all add: loopInv_def)
  from q have cn: "cur \<le> n" by (simp add: qOK_def)
  note nl = park_not_level_g [OF wl vo c]
  show ?thesis unfolding loopInv_def
    using pass_qOK_rest [OF q] a park_coverR [OF nl cr] park_coverU [OF nl cu] park_visOK [OF nl vo]
      vs park_incOK [OF wl nl q io] park_incAll [OF own ia cn]
    by blast
qed

section \<open>The whole loop\<close>

lemma loopInv_loop:
  assumes wl: "wellLinked h root n" and own: "ownIdentity h n"
  shows "loopInv h root n g q visited incomplete app \<Longrightarrow>
     bfsCheckCycle_loop h q visited incomplete app = (visited', incomplete', app') \<Longrightarrow>
     loopInv h root n g [] visited' incomplete' app'"
proof (induction q arbitrary: visited incomplete app)
  case Nil
  then show ?case by simp
next
  case (Cons cur rest)
  show ?case
  proof (cases "isParentCompleted h visited cur")
    case True
    from loopInv_pass [OF wl own Cons.prems(1) True] Cons.prems(2) True show ?thesis
      by (auto intro: Cons.IH)
  next
    case False
    from loopInv_park [OF wl own Cons.prems(1) False] Cons.prems(2) False show ?thesis
      by (auto intro: Cons.IH)
  qed
qed

section \<open>From one generation to the next\<close>

lemma genInv_loopInv:
  assumes wl: "wellLinked h root n" and g: "genInv h root n g q visited incomplete"
  shows "loopInv h root n g q visited incomplete []"
proof -
  from g have q: "qOK h root n g q"
    and q2: "\<forall>v\<le>n. resolvable h v \<and> level h v = g \<longrightarrow> v \<in> set q"
    and q3: "\<forall>w\<le>n. \<not> resolvable h w \<longrightarrow>
        (\<forall>p\<in>set (parents (h w)). resolvable h p \<and> Suc (level h p) = g \<longrightarrow> w \<in> set q)"
    and v1: "\<forall>v\<le>n. resolvable h v \<and> level h v < g \<longrightarrow> TaskInsID (h v) \<in> visited"
    and vs: "visSound h n visited"
    and i1: "\<forall>k w. incomplete k = Some w \<longrightarrow>
        w \<le> n \<and> TaskInsID (h w) = k \<and> (resolvable h w \<longrightarrow> g \<le> level h w) \<and>
        (\<not> resolvable h w \<longrightarrow> (\<exists>p\<in>set (parents (h w)). resolvable h p))"
    and i2: "\<forall>w\<le>n. \<not> resolvable h w \<longrightarrow>
        (\<exists>p\<in>set (parents (h w)). resolvable h p \<and> Suc (level h p) < g) \<longrightarrow>
        incomplete (TaskInsID (h w)) = Some w"
    by (simp_all add: genInv_def)
  have a: "qOK h root n (Suc g) []" by (simp add: qOK_def)
  have cr: "coverR h n g q []"
    unfolding coverR_def
  proof (intro allI impI)
    fix v assume v: "v \<le> n" "resolvable h v \<and> level h v = Suc g"
    then obtain p where p: "p \<in> set (parents (h v))" "resolvable h p" "level h p = g"
      using level_Suc_parent [of h v g] by auto
    from wl p(1) have "p \<le> n" by (rule wl_parent_le)
    with q2 p have "p \<in> set q" by auto
    with p show "v \<in> set [] \<or>
        (\<exists>p\<in>set (parents (h v)). resolvable h p \<and> level h p = g \<and> p \<in> set q)"
      by auto
  qed
  have cu: "coverU h n g q []"
    unfolding coverU_def
  proof (intro allI impI ballI)
    fix w p assume "w \<le> n" "\<not> resolvable h w" and p: "p \<in> set (parents (h w))"
      "resolvable h p \<and> level h p = g"
    from wl p(1) have "p \<le> n" by (rule wl_parent_le)
    with q2 p show "w \<in> set [] \<or> p \<in> set q" by auto
  qed
  have vo: "visOK h n g q visited" using q2 v1 by (auto simp: visOK_def)
  have io: "incOK h n g q incomplete"
    unfolding incOK_def
  proof (intro allI impI)
    fix k w assume "incomplete k = Some w"
    with i1 have a: "w \<le> n" "TaskInsID (h w) = k" "resolvable h w \<longrightarrow> g \<le> level h w"
      "\<not> resolvable h w \<longrightarrow> (\<exists>p\<in>set (parents (h w)). resolvable h p)"
      by blast+
    have "Suc g \<le> level h w \<or> (level h w = g \<and> w \<in> set q)" if "resolvable h w"
    proof (cases "level h w = g")
      case True
      with q2 a(1) that show ?thesis by auto
    next
      case False
      with a(3) that show ?thesis by auto
    qed
    with a show "w \<le> n \<and> TaskInsID (h w) = k \<and>
        (resolvable h w \<longrightarrow> Suc g \<le> level h w \<or> (level h w = g \<and> w \<in> set q)) \<and>
        (\<not> resolvable h w \<longrightarrow> (\<exists>p\<in>set (parents (h w)). resolvable h p))"
      by blast
  qed
  have ia: "incAll h n g q incomplete"
    unfolding incAll_def
  proof (intro allI impI)
    fix w assume w: "w \<le> n" "\<not> resolvable h w"
      and e: "\<exists>p\<in>set (parents (h w)). resolvable h p \<and>
           (Suc (level h p) < g \<or> (Suc (level h p) = g \<and> w \<notin> set q))"
    from e q3 w have "\<exists>p\<in>set (parents (h w)). resolvable h p \<and> Suc (level h p) < g"
      by blast
    with i2 w show "incomplete (TaskInsID (h w)) = Some w" by blast
  qed
  from q a cr cu vo vs io ia show ?thesis by (simp add: loopInv_def)
qed

lemma loopInv_genInv:
  assumes l: "loopInv h root n g [] visited incomplete app"
  shows "genInv h root n (Suc g) app visited incomplete"
proof -
  from l have a: "qOK h root n (Suc g) app"
    and cr: "coverR h n g [] app" and cu: "coverU h n g [] app"
    and vo: "visOK h n g [] visited" and vs: "visSound h n visited"
    and io: "incOK h n g [] incomplete" and ia: "incAll h n g [] incomplete"
    by (simp_all add: loopInv_def)
  have q2: "\<forall>v\<le>n. resolvable h v \<and> level h v = Suc g \<longrightarrow> v \<in> set app"
    using cr by (auto simp: coverR_def)
  have q3: "\<forall>w\<le>n. \<not> resolvable h w \<longrightarrow>
        (\<forall>p\<in>set (parents (h w)). resolvable h p \<and> Suc (level h p) = Suc g \<longrightarrow> w \<in> set app)"
    using cu by (auto simp: coverU_def)
  have v1: "\<forall>v\<le>n. resolvable h v \<and> level h v < Suc g \<longrightarrow> TaskInsID (h v) \<in> visited"
    using vo by (auto simp: visOK_def less_Suc_eq)
  have i1: "\<forall>k w. incomplete k = Some w \<longrightarrow>
        w \<le> n \<and> TaskInsID (h w) = k \<and> (resolvable h w \<longrightarrow> Suc g \<le> level h w) \<and>
        (\<not> resolvable h w \<longrightarrow> (\<exists>p\<in>set (parents (h w)). resolvable h p))"
    using io unfolding incOK_def by (metis empty_iff empty_set)
  have i2: "\<forall>w\<le>n. \<not> resolvable h w \<longrightarrow>
        (\<exists>p\<in>set (parents (h w)). resolvable h p \<and> Suc (level h p) < Suc g) \<longrightarrow>
        incomplete (TaskInsID (h w)) = Some w"
  proof (intro allI impI)
    fix w assume w: "w \<le> n" "\<not> resolvable h w"
      and "\<exists>p\<in>set (parents (h w)). resolvable h p \<and> Suc (level h p) < Suc g"
    then have "\<exists>p\<in>set (parents (h w)). resolvable h p \<and>
           (Suc (level h p) < g \<or> (Suc (level h p) = g \<and> w \<notin> set []))"
      by (auto simp: less_Suc_eq)
    with ia w show "incomplete (TaskInsID (h w)) = Some w" unfolding incAll_def by blast
  qed
  from a q2 q3 v1 vs i1 i2 show ?thesis unfolding genInv_def by blast
qed

lemma genInv_step:
  assumes wl: "wellLinked h root n" and own: "ownIdentity h n"
    and g: "genInv h root n g q visited incomplete"
    and l: "bfsCheckCycle_loop h q visited incomplete [] = (visited', incomplete', app')"
  shows "genInv h root n (Suc g) app' visited' incomplete'"
  by (rule loopInv_genInv, rule loopInv_loop [OF wl own genInv_loopInv [OF wl g] l])

lemma genInv_init:
  assumes wl: "wellLinked h root n"
  shows "genInv h root n 0 [root] {} Map.empty"
proof -
  have "v = root" if "v \<le> n" "resolvable h v" "level h v = 0" for v
  proof -
    from level_zero [OF that(2,3)] have "parents (h v) = []" .
    with wl that(1) show ?thesis by (auto simp: wellLinked_def)
  qed
  with wl_root [OF wl] show ?thesis
    by (auto simp: genInv_def qOK_def visSound_def)
qed

section \<open>When the queue is empty\<close>

lemma genInv_no_level:
  assumes wl: "wellLinked h root n" and g: "genInv h root n g [] visited incomplete"
  shows "v \<le> n \<Longrightarrow> resolvable h v \<Longrightarrow> level h v = g + j \<Longrightarrow> False"
proof (induction j arbitrary: v)
  case 0
  with g show ?case by (auto simp: genInv_def)
next
  case (Suc j)
  from level_Suc_parent [of h v "g + j"] Suc.prems obtain p where
    p: "p \<in> set (parents (h v))" "resolvable h p" "level h p = g + j" by auto
  from wl p(1) have "p \<le> n" by (rule wl_parent_le)
  from Suc.IH [OF this p(2,3)] show ?case .
qed

lemma genInv_final:
  assumes wl: "wellLinked h root n" and g: "genInv h root n g [] visited incomplete"
  shows "incomplete k = Some w \<longleftrightarrow>
           w \<le> n \<and> \<not> resolvable h w \<and> (\<exists>p\<in>set (parents (h w)). resolvable h p) \<and>
           k = TaskInsID (h w)"
proof
  assume i: "incomplete k = Some w"
  with g have a: "w \<le> n" "TaskInsID (h w) = k" "resolvable h w \<longrightarrow> g \<le> level h w"
      "\<not> resolvable h w \<longrightarrow> (\<exists>p\<in>set (parents (h w)). resolvable h p)"
    unfolding genInv_def by blast+
  have "\<not> resolvable h w"
  proof
    assume r: "resolvable h w"
    with a(3) obtain j where "level h w = g + j" by (auto simp: le_iff_add)
    from genInv_no_level [OF wl g a(1) r this] show False .
  qed
  with a show "w \<le> n \<and> \<not> resolvable h w \<and> (\<exists>p\<in>set (parents (h w)). resolvable h p) \<and>
           k = TaskInsID (h w)" by auto
next
  assume a: "w \<le> n \<and> \<not> resolvable h w \<and> (\<exists>p\<in>set (parents (h w)). resolvable h p) \<and>
           k = TaskInsID (h w)"
  then obtain p where p: "p \<in> set (parents (h w))" "resolvable h p" by auto
  from wl p(1) have pn: "p \<le> n" by (rule wl_parent_le)
  have "level h p < g"
  proof (rule ccontr)
    assume "\<not> level h p < g"
    then obtain j where "level h p = g + j" by (auto simp: not_less le_iff_add)
    from genInv_no_level [OF wl g pn p(2) this] show False .
  qed
  moreover have "Suc (level h p) \<noteq> g"
  proof
    assume "Suc (level h p) = g"
    with g a p show False unfolding genInv_def by (metis empty_iff empty_set)
  qed
  ultimately have "Suc (level h p) < g" by simp
  with g a p show "incomplete k = Some w" unfolding genInv_def by blast
qed

section \<open>The recursion ends\<close>

lemma bfsCheckCycle_run:
  assumes wl: "wellLinked h root n" and own: "ownIdentity h n"
    and bound: "\<forall>v\<le>n. level h v < L"
  shows "genInv h root n g q visited incomplete \<Longrightarrow>
     \<exists>d visited' incomplete' g'.
        (\<forall>d'\<ge>d. bfsCheckCycle d' h q visited incomplete = Some (visited', incomplete')) \<and>
        genInv h root n g' [] visited' incomplete'"
proof (induction "Suc L - g" arbitrary: g q visited incomplete)
  case 0
  have "q = []"
  proof (cases q)
    case Nil
    then show ?thesis .
  next
    case (Cons v vs)
    with "0.prems" have "(g = 0 \<and> v = root) \<or>
        (\<exists>p\<in>set (parents (h v)). resolvable h p \<and> g \<le> Suc (level h p))"
      by (auto simp: genInv_def qOK_def)
    then have "g \<le> L"
    proof
      assume "g = 0 \<and> v = root" then show ?thesis by simp
    next
      assume "\<exists>p\<in>set (parents (h v)). resolvable h p \<and> g \<le> Suc (level h p)"
      then obtain p where p: "p \<in> set (parents (h v))" "g \<le> Suc (level h p)" by auto
      from wl p(1) have "p \<le> n" by (rule wl_parent_le)
      with bound have "level h p < L" by auto
      with p(2) show ?thesis by simp
    qed
    with "0.hyps" show ?thesis by simp
  qed
  have "\<forall>d'\<ge>Suc 0. bfsCheckCycle d' h [] visited incomplete = Some (visited, incomplete)"
  proof (intro allI impI)
    fix d' :: nat assume "Suc 0 \<le> d'"
    then obtain e where "d' = Suc e" by (cases d') auto
    then show "bfsCheckCycle d' h [] visited incomplete = Some (visited, incomplete)" by simp
  qed
  with "0.prems" \<open>q = []\<close> show ?case by blast
next
  case (Suc k)
  show ?case
  proof (cases "q = []")
    case True
    have "\<forall>d'\<ge>Suc 0. bfsCheckCycle d' h [] visited incomplete = Some (visited, incomplete)"
    proof (intro allI impI)
      fix d' :: nat assume "Suc 0 \<le> d'"
      then obtain e where "d' = Suc e" by (cases d') auto
      then show "bfsCheckCycle d' h [] visited incomplete = Some (visited, incomplete)" by simp
    qed
    with Suc.prems True show ?thesis by blast
  next
    case False
    obtain v1 i1 a1 where l: "bfsCheckCycle_loop h q visited incomplete [] = (v1, i1, a1)"
      by (cases "bfsCheckCycle_loop h q visited incomplete []") auto
    have g1: "genInv h root n (Suc g) a1 v1 i1"
      by (rule genInv_step [OF wl own Suc.prems l])
    from Suc.hyps(2) have "k = Suc L - Suc g" by simp
    from Suc.hyps(1) [OF this g1] obtain d v' i' g' where
      r: "\<forall>d'\<ge>d. bfsCheckCycle d' h a1 v1 i1 = Some (v', i')"
      and f: "genInv h root n g' [] v' i'" by blast
    have "\<forall>d'\<ge>Suc d. bfsCheckCycle d' h q visited incomplete = Some (v', i')"
    proof (intro allI impI)
      fix d' assume "Suc d \<le> d'"
      then obtain e where e: "d' = Suc e" "d \<le> e" by (cases d') auto
      with r have "bfsCheckCycle e h a1 v1 i1 = Some (v', i')" by simp
      with e False l show "bfsCheckCycle d' h q visited incomplete = Some (v', i')" by simp
    qed
    with f show ?thesis by blast
  qed
qed

lemma level_bound: "\<exists>L. \<forall>v\<le>n. level h v < (L::nat)"
proof -
  have "\<forall>v\<le>n. level h v < Suc (Max (level h ` {..n}))"
    by (auto simp: less_Suc_eq_le)
  then show ?thesis by blast
qed

lemma HasCycle_resolvable:
  assumes wl: "wellLinked h root n" and own: "ownIdentity h n"
  shows "\<exists>d. \<forall>d'\<ge>d. HasCycle d' h root =
     Some (if {w. w \<le> n \<and> \<not> resolvable h w \<and> (\<exists>p\<in>set (parents (h w)). resolvable h p)} = {}
           then {None}
           else Some ` {w. w \<le> n \<and> \<not> resolvable h w \<and> (\<exists>p\<in>set (parents (h w)). resolvable h p)})"
proof -
  let ?F = "{w. w \<le> n \<and> \<not> resolvable h w \<and> (\<exists>p\<in>set (parents (h w)). resolvable h p)}"
  obtain L where L: "\<forall>v\<le>n. level h v < L" using level_bound by blast
  from bfsCheckCycle_run [OF wl own L genInv_init [OF wl]] obtain d vi inc g where
    r: "\<forall>d'\<ge>d. bfsCheckCycle d' h [root] {} Map.empty = Some (vi, inc)"
    and f: "genInv h root n g [] vi inc" by blast
  note fin = genInv_final [OF wl f]
  have ran: "ran inc = ?F" unfolding ran_def using fin by auto
  have dom: "dom inc = {} \<longleftrightarrow> ?F = {}"
  proof
    assume "dom inc = {}"
    then have "ran inc = {}" by (auto simp: ran_def dom_def)
    with ran show "?F = {}" by simp
  next
    assume "?F = {}"
    with ran have "ran inc = {}" by simp
    then show "dom inc = {}" by (auto simp: ran_def dom_def)
  qed
  have "\<forall>d'\<ge>d. HasCycle d' h root = Some (if ?F = {} then {None} else Some ` ?F)"
  proof (intro allI impI)
    fix d' assume "d \<le> d'"
    with r have "bfsCheckCycle d' h [root] {} Map.empty = Some (vi, inc)" by blast
    then have "HasCycle d' h root = Some (if dom inc = {} then {None} else Some ` ran inc)"
      by (simp add: HasCycle_def)
    also have "(if dom inc = {} then {None} else Some ` ran inc) =
        (if ?F = {} then {None} else Some ` ?F)"
      unfolding ran dom ..
    finally show "HasCycle d' h root = Some (if ?F = {} then {None} else Some ` ?F)" .
  qed
  then show ?thesis by blast
qed

section \<open>Built graphs are well linked\<close>

lemma sym_AppendParent_AppendChild:
  assumes "\<forall>p c. c \<in> set (children (h p)) \<longleftrightarrow> p \<in> set (parents (h c))"
  shows "\<forall>p c. c \<in> set (children ((AppendParent n q (AppendChild q n h)) p)) \<longleftrightarrow>
               p \<in> set (parents ((AppendParent n q (AppendChild q n h)) c))"
  using assms by (auto simp: AppendParent_def AppendChild_def)

lemma sym_AppendChild_AppendParent:
  assumes "\<forall>p c. c \<in> set (children (h p)) \<longleftrightarrow> p \<in> set (parents (h c))"
  shows "\<forall>p c. c \<in> set (children ((AppendChild q n (AppendParent n q h)) p)) \<longleftrightarrow>
               p \<in> set (parents ((AppendChild q n (AppendParent n q h)) c))"
  using assms by (auto simp: AppendParent_def AppendChild_def)

lemma linkDepend_sym:
  "linkDepend m t ds h = Inr h' \<Longrightarrow>
   \<forall>p c. c \<in> set (children (h p)) \<longleftrightarrow> p \<in> set (parents (h c)) \<Longrightarrow>
   \<forall>p c. c \<in> set (children (h' p)) \<longleftrightarrow> p \<in> set (parents (h' c))"
proof (induction ds arbitrary: h)
  case Nil
  then show ?case by simp
next
  case (Cons d ds)
  from Cons.prems(1) obtain q n where q: "m d = Some q" and n: "m (GetGraphID t) = Some n"
    and r: "linkDepend m t ds (AppendParent n q (AppendChild q n h)) = Inr h'"
    by (auto split: option.splits)
  from Cons.IH [OF r sym_AppendParent_AppendChild [OF Cons.prems(2)]] show ?case .
qed

lemma linkTasks_sym:
  "linkTasks root m ts h = Inr h' \<Longrightarrow> \<forall>t\<in>set ts. m (GetGraphID t) \<noteq> None \<Longrightarrow>
   \<forall>p c. c \<in> set (children (h p)) \<longleftrightarrow> p \<in> set (parents (h c)) \<Longrightarrow>
   \<forall>p c. c \<in> set (children (h' p)) \<longleftrightarrow> p \<in> set (parents (h' c))"
proof (induction ts arbitrary: h)
  case Nil
  then show ?case by simp
next
  case (Cons t ts)
  from Cons.prems(2) obtain n where n: "m (GetGraphID t) = Some n" by auto
  from Cons.prems(2) have rest: "\<forall>t\<in>set ts. m (GetGraphID t) \<noteq> None" by simp
  show ?case
  proof (cases "GetDepend t = []")
    case True
    with Cons.prems(1) n have r: "linkTasks root m ts (AppendChild root n (AppendParent n root h)) = Inr h'"
      by (simp add: linkTasks_Cons)
    from Cons.IH [OF r rest sym_AppendChild_AppendParent [OF Cons.prems(3)]] show ?thesis .
  next
    case False
    with Cons.prems(1) n obtain h2 where h2: "linkDepend m t (GetDepend t) h = Inr h2"
      and r: "linkTasks root m ts h2 = Inr h'"
      by (auto simp: linkTasks_Cons split: sum.splits)
    from Cons.IH [OF r rest linkDepend_sym [OF h2 Cons.prems(3)]] show ?thesis .
  qed
qed

lemma linkDepend_TaskInsID:
  "linkDepend m t ds h = Inr h' \<Longrightarrow> TaskInsID (h' a) = TaskInsID (h a)"
  by (induction ds arbitrary: h)
    (auto simp: AppendChild_def AppendParent_def split: option.splits if_splits)

lemma linkTasks_TaskInsID:
  "linkTasks root m ts h = Inr h' \<Longrightarrow> \<forall>t\<in>set ts. m (GetGraphID t) \<noteq> None \<Longrightarrow>
     TaskInsID (h' a) = TaskInsID (h a)"
proof (induction ts arbitrary: h)
  case Nil
  then show ?case by simp
next
  case (Cons t ts)
  from Cons.prems(2) obtain n where n: "m (GetGraphID t) = Some n" by auto
  from Cons.prems(2) have rest: "\<forall>t\<in>set ts. m (GetGraphID t) \<noteq> None" by simp
  show ?case
  proof (cases "GetDepend t = []")
    case True
    with Cons.prems(1) n have r: "linkTasks root m ts (AppendChild root n (AppendParent n root h)) = Inr h'"
      by (simp add: linkTasks_Cons)
    from Cons.IH [OF r rest] show ?thesis by (simp add: AppendChild_def AppendParent_def)
  next
    case False
    with Cons.prems(1) n obtain h2 where h2: "linkDepend m t (GetDepend t) h = Inr h2"
      and r: "linkTasks root m ts h2 = Inr h'"
      by (auto simp: linkTasks_Cons split: sum.splits)
    from Cons.IH [OF r rest] linkDepend_TaskInsID [OF h2, of a] show ?thesis by simp
  qed
qed

lemma BuildRootNode_Inr:
  assumes "BuildRootNode tasks = Inr (h, root)"
  obtains m h1 where
    "buildGraphNodeMap_loop tasks Map.empty rootHeap (Suc 0) = Inr (m, h1)"
    "linkTasks 0 m tasks h1 = Inr h" "root = 0"
  using assms by (auto simp: BuildRootNode_unfold split: sum.splits if_splits)

lemma BuildRootNode_wellLinked:
  assumes b: "BuildRootNode tasks = Inr (h, root)"
  shows "root = 0 \<and> wellLinked h 0 (length tasks) \<and>
         (\<forall>v. parents (h v) \<noteq> [] \<longrightarrow> v \<le> length tasks) \<and>
         TaskInsID (h 0) = virtualTaskRootID \<and>
         (\<forall>i<length tasks. TaskInsID (h (Suc i)) = GetID (tasks ! i))"
proof -
  let ?n = "length tasks"
  from b obtain m h1 where
    r: "buildGraphNodeMap_loop tasks Map.empty rootHeap (Suc 0) = Inr (m, h1)"
    and l: "linkTasks 0 m tasks h1 = Inr h" and root: "root = 0"
    by (rule BuildRootNode_Inr)
  have dm: "dom m = GetGraphID ` set tasks" using loop_dom [OF r] by simp
  then have ne: "\<forall>t\<in>set tasks. m (GetGraphID t) \<noteq> None" by auto
  have rn: "Suc 0 \<le> a \<and> a \<le> ?n" if "m g = Some a" for g a
    using loop_ran [OF r that] by auto
  have addr: "map (\<lambda>t. m (GetGraphID t)) tasks = map Some [Suc 0 ..< Suc 0 + ?n]"
    by (rule loop_addr [OF r])
  then have di: "distinct (map (\<lambda>t. m (GetGraphID t)) tasks)" by (simp add: distinct_map)
  have idx: "m (GetGraphID (tasks ! i)) = Some (Suc i)" if "i < ?n" for i
  proof -
    from that have "map (\<lambda>t. m (GetGraphID t)) tasks ! i = map Some [Suc 0 ..< Suc 0 + ?n] ! i"
      using addr by (simp del: upt_Suc)
    moreover from that have "map Some [Suc 0 ..< Suc 0 + ?n] ! i = Some (Suc i)"
      by (simp del: upt_Suc)
    ultimately show ?thesis using that by (simp del: upt_Suc)
  qed
  have h1: "children (h1 a) = [] \<and> parents (h1 a) = []" for a
    using loop_heap [OF r, of a] by (auto simp: NewTaskNodeFromGetter_def rootHeap_def emptyHeap_def)
  have deps: "\<forall>t\<in>set tasks. set (GetDepend t) \<subseteq> dom m"
    using linkTasks_succeeds_iff [OF ne, of 0 h1] l by auto
  let ?F = "\<lambda>t. if GetDepend t = [] then [0] else map (\<lambda>d. the (m d)) (GetDepend t)"
  have par: "parents (h a) =
      concat (map (\<lambda>t. if m (GetGraphID t) = Some a then ?F t else []) tasks)" for a
    using linkTasks_parents [OF l ne, of a] h1 by simp
  have F_ne: "?F t \<noteq> []" for t by simp
  have F_le: "p \<le> ?n" if "t \<in> set tasks" "p \<in> set (?F t)" for t p
  proof (cases "GetDepend t = []")
    case True
    with that show ?thesis by simp
  next
    case False
    with that obtain d where d: "d \<in> set (GetDepend t)" "p = the (m d)" by auto
    with deps that(1) obtain a where "m d = Some a" by auto
    with rn [OF this] d show ?thesis by simp
  qed
  have p0: "parents (h 0) = []"
  proof -
    have "\<forall>t\<in>set tasks. m (GetGraphID t) \<noteq> Some 0" using rn by fastforce
    then have "concat (map (\<lambda>t. if m (GetGraphID t) = Some 0 then ?F t else []) tasks) = []"
      by (induction tasks) auto
    with par [of 0] show ?thesis by simp
  qed
  have pne: "parents (h v) \<noteq> []" if "v \<le> ?n" "v \<noteq> 0" for v
  proof -
    from that obtain i where i: "v = Suc i" "i < ?n" by (cases v) auto
    let ?t0 = "tasks ! i"
    from i have t0: "?t0 \<in> set tasks" by simp
    have "parents (h v) =
        concat (map (\<lambda>t. if m (GetGraphID t) = m (GetGraphID ?t0) then ?F t else []) tasks)"
      using par [of v] idx [OF i(2)] i(1) by simp
    also have "\<dots> = ?F ?t0"
      by (rule concat_single_match [where k = "\<lambda>t. m (GetGraphID t)", OF di t0])
    finally show ?thesis using F_ne by simp
  qed
  have pmem: "\<exists>t\<in>set tasks. m (GetGraphID t) = Some v \<and> p \<in> set (?F t)"
    if "p \<in> set (parents (h v))" for p v
    using that unfolding par [of v] by (auto split: if_splits)
  have ple: "p \<le> ?n" if "p \<in> set (parents (h v))" for p v
    using pmem [OF that] F_le by blast
  have vle: "v \<le> ?n" if "parents (h v) \<noteq> []" for v
  proof -
    from that obtain p where "p \<in> set (parents (h v))" by (cases "parents (h v)") auto
    from pmem [OF this] rn show ?thesis by blast
  qed
  have sym: "\<forall>p c. c \<in> set (children (h p)) \<longleftrightarrow> p \<in> set (parents (h c))"
    by (rule linkTasks_sym [OF l ne]) (simp add: h1)
  have cle: "c \<le> ?n" if "c \<in> set (children (h v))" for c v
  proof -
    from that sym have "v \<in> set (parents (h c))" by simp
    then have "parents (h c) \<noteq> []" by auto
    then show ?thesis by (rule vle)
  qed
  have wl: "wellLinked h 0 ?n"
    unfolding wellLinked_def using p0 pne ple cle sym by blast
  have id0: "TaskInsID (h 0) = virtualTaskRootID"
    using linkTasks_TaskInsID [OF l ne, of 0] loop_heap [OF r, of 0] by (simp add: rootHeap_def)
  have ids: "TaskInsID (h (Suc i)) = GetID (tasks ! i)" if "i < ?n" for i
    using linkTasks_TaskInsID [OF l ne, of "Suc i"] loop_heap [OF r, of "Suc i"] that
    by (simp add: NewTaskNodeFromGetter_def)
  from root wl vle id0 ids show ?thesis by blast
qed

lemma resolvable_ancestor:
  "(p, v) \<in> (dependsOn h)\<^sup>+ \<Longrightarrow> resolvable h v \<Longrightarrow> resolvable h p \<and> level h p < level h v"
proof (induction rule: trancl_induct)
  case (base y)
  then show ?case using level_parents [of h y p] by (simp add: dependsOn_def)
next
  case (step y z)
  from step.hyps(2) step.prems level_parents [of h z y]
  have "resolvable h y" "level h y < level h z" by (simp_all add: dependsOn_def)
  with step.IH show ?case by auto
qed

lemma resolvable_not_cyclic:
  assumes "resolvable h w"
  shows "\<not> onOrBelowCycle h w"
proof
  assume "onOrBelowCycle h w"
  then obtain c where c: "(c, c) \<in> (dependsOn h)\<^sup>+" "(c, w) \<in> (dependsOn h)\<^sup>*"
    by (auto simp: onOrBelowCycle_def)
  from c(2) have "c = w \<or> (c, w) \<in> (dependsOn h)\<^sup>+" by (auto simp: rtrancl_eq_or_trancl)
  with assms resolvable_ancestor [of c w h] have "resolvable h c" by auto
  with resolvable_ancestor [OF c(1)] show False by auto
qed

lemma unresolvable_cyclic:
  assumes par: "\<And>p v. p \<in> set (parents (h v)) \<Longrightarrow> p \<le> n"
    and nr: "\<not> resolvable h w"
  shows "onOrBelowCycle h w"
proof (rule ccontr)
  assume nc: "\<not> onOrBelowCycle h w"
  let ?E = "dependsOn h"
  define r where "r = {(p, v). (p, v) \<in> ?E \<and> (v, w) \<in> ?E\<^sup>*}"
  have sub: "r \<subseteq> ?E" by (auto simp: r_def)
  have "r \<subseteq> {..n} \<times> insert w {..n}"
  proof
    fix x assume "x \<in> r"
    then obtain p v where x: "x = (p, v)" "p \<in> set (parents (h v))" "(v, w) \<in> ?E\<^sup>*"
      by (auto simp: r_def dependsOn_def)
    from x(2) have "p \<le> n" by (rule par)
    moreover from x(3) have "v = w \<or> v \<le> n"
    proof (cases rule: converse_rtranclE)
      case base
      then show ?thesis by simp
    next
      case (step y)
      then have "v \<in> set (parents (h y))" by (simp add: dependsOn_def)
      then show ?thesis using par by blast
    qed
    ultimately show "x \<in> {..n} \<times> insert w {..n}" using x(1) by auto
  qed
  then have fin: "finite r" by (rule finite_subset) simp
  have acy: "acyclic r"
    unfolding acyclic_def
  proof (intro allI notI)
    fix x assume xx: "(x, x) \<in> r\<^sup>+"
    then have "(x, x) \<in> ?E\<^sup>+" using sub by (meson trancl_mono)
    moreover from xx obtain y where "(y, x) \<in> r" by (meson tranclD2)
    then have "(x, w) \<in> ?E\<^sup>*" by (simp add: r_def)
    ultimately show False using nc by (auto simp: onOrBelowCycle_def)
  qed
  have "wf r" using fin acy by (rule finite_acyclic_wf)
  then have "(v, w) \<in> ?E\<^sup>* \<longrightarrow> resolvable h v" for v
  proof (induction v rule: wf_induct_rule)
    case (less v)
    show ?case
    proof
      assume vw: "(v, w) \<in> ?E\<^sup>*"
      show "resolvable h v"
      proof (rule resolvable_parents, rule ballI)
        fix p assume p: "p \<in> set (parents (h v))"
        with vw have "(p, v) \<in> r" by (simp add: r_def dependsOn_def)
        moreover from p vw have "(p, w) \<in> ?E\<^sup>*"
          by (auto simp: dependsOn_def intro: converse_rtrancl_into_rtrancl)
        ultimately show "resolvable h p" using less by blast
      qed
    qed
  qed
  then have "resolvable h w" by blast
  with nr show False ..
qed

lemma resolvable_iff:
  assumes "wellLinked h root n"
  shows "resolvable h w \<longleftrightarrow> \<not> onOrBelowCycle h w"
  using resolvable_not_cyclic [of h w] unresolvable_cyclic [of h n w] wl_parent_le [OF assms]
  by blast

lemma build_unreachableCycle: "BuildRootNode unreachableCycle = Inr (unreachableCycleHeap, 0)"
  by (simp add: BuildRootNode_def buildGraphNodeMap_def unreachableCycle_def task_def
      unreachableCycleHeap_def node_def NewTaskNodeFromGetter_def AppendChild_def AppendParent_def
      fun_eq_iff)

lemma build_reachableCycle: "BuildRootNode reachableCycle = Inr (reachableCycleHeap, 0)"
  by (simp add: BuildRootNode_def buildGraphNodeMap_def reachableCycle_def task_def
      reachableCycleHeap_def node_def NewTaskNodeFromGetter_def AppendChild_def AppendParent_def
      fun_eq_iff)

lemma acyclic_resolvable:
  assumes "acyclic (dependsOn h)"
  shows "\<not> onOrBelowCycle h w"
  using assms by (auto simp: acyclic_def onOrBelowCycle_def)

lemma built_ownIdentity:
  assumes wl: "wellLinked h root n"
    and "\<forall>w\<le>n. onOrBelowCycle h w \<longrightarrow> (\<forall>v\<le>n. TaskInsID (h v) = TaskInsID (h w) \<longrightarrow> v = w)"
  shows "ownIdentity h n"
  using assms(2) unfolding ownIdentity_def resolvable_iff [OF wl] by blast

lemma built_frontier:
  assumes wl: "wellLinked h root n" and vle: "\<forall>v. parents (h v) \<noteq> [] \<longrightarrow> v \<le> n"
  shows "{w. w \<le> n \<and> \<not> resolvable h w \<and> (\<exists>p\<in>set (parents (h w)). resolvable h p)} =
         cycleFrontier h"
proof -
  have "w \<le> n" if "p \<in> set (parents (h w))" for p w
  proof -
    from that have "parents (h w) \<noteq> []" by auto
    with vle show ?thesis by blast
  qed
  then show ?thesis unfolding cycleFrontier_def resolvable_iff [OF wl] by auto
qed

lemma distinct_identities:
  assumes "TaskInsID (h 0) = virtualTaskRootID"
    and "\<forall>i<length tasks. TaskInsID (h (Suc i)) = GetID (tasks ! i)"
    and d: "distinct (virtualTaskRootID # map GetID tasks)"
  shows "\<forall>w\<le>length tasks. \<forall>v\<le>length tasks. TaskInsID (h v) = TaskInsID (h w) \<longrightarrow> v = w"
proof (intro allI impI)
  fix w v assume w: "w \<le> length tasks" and v: "v \<le> length tasks"
    and e: "TaskInsID (h v) = TaskInsID (h w)"
  have nth: "TaskInsID (h a) = (virtualTaskRootID # map GetID tasks) ! a" if "a \<le> length tasks" for a
    using that assms(1,2) by (cases a) auto
  from e nth [OF w] nth [OF v]
  have "(virtualTaskRootID # map GetID tasks) ! v = (virtualTaskRootID # map GetID tasks) ! w"
    by simp
  with d w v show "v = w" by (simp add: nth_eq_iff_index_eq del: distinct.simps)
qed

lemma reachableCycle_cyclic:
  "onOrBelowCycle reachableCycleHeap w \<longleftrightarrow> w = 2 \<or> w = 3"
proof
  assume c: "onOrBelowCycle reachableCycleHeap w"
  show "w = 2 \<or> w = 3"
  proof (rule ccontr)
    assume "\<not> (w = 2 \<or> w = 3)"
    then have "resolved reachableCycleHeap (Suc (Suc 0)) w"
      by (auto simp: reachableCycleHeap_def node_def emptyHeap_def)
    then have "resolvable reachableCycleHeap w" unfolding resolvable_def by blast
    from resolvable_not_cyclic [OF this] c show False ..
  qed
next
  assume w: "w = 2 \<or> w = 3"
  have e1: "(2, 3) \<in> dependsOn reachableCycleHeap"
    by (simp add: dependsOn_def reachableCycleHeap_def node_def)
  have e2: "(3, 2) \<in> dependsOn reachableCycleHeap"
    by (simp add: dependsOn_def reachableCycleHeap_def node_def)
  from e1 e2 have c: "(2, 2) \<in> (dependsOn reachableCycleHeap)\<^sup>+"
    by (meson r_into_trancl trancl_into_trancl)
  from e1 have "(2, 3) \<in> (dependsOn reachableCycleHeap)\<^sup>*" by blast
  with c w show "onOrBelowCycle reachableCycleHeap w"
    unfolding onOrBelowCycle_def by blast
qed

lemma reachableCycle_frontier: "cycleFrontier reachableCycleHeap = {2}"
proof -
  have "parents (reachableCycleHeap 2) = [1, 3]" "parents (reachableCycleHeap 3) = [2]"
    by (simp_all add: reachableCycleHeap_def node_def)
  then show ?thesis
    unfolding cycleFrontier_def reachableCycle_cyclic by auto
qed

lemma diamond_acyclic: "acyclic (dependsOn (diamondHeap a b c d))"
proof (rule acyclicI_order [where f = "\<lambda>x. 10 - x"])
  fix p v assume "(p, v) \<in> dependsOn (diamondHeap a b c d)"
  then have "p \<in> set (parents (diamondHeap a b c d v))" by (simp add: dependsOn_def)
  then have "p < v \<and> v \<le> 4"
    by (auto simp: diamondHeap_def node_def emptyHeap_def split: if_splits)
  then show "10 - v < 10 - p" by arith
qed

section \<open>Two remarks: shared identities, and walks on built acyclic graphs\<close>

text \<open>
  When a node on a cycle shares its identity with a visited node, the cycle detector
  takes the node for visited and its recursion never ends.
\<close>

lemma build_sharedIdentityCycle:
  "BuildRootNode sharedIdentityCycle = Inr (sharedIdentityCycleHeap, 0)"
  by (simp add: BuildRootNode_def buildGraphNodeMap_def sharedIdentityCycle_def
      sharedIdentityCycleHeap_def node_def NewTaskNodeFromGetter_def AppendChild_def AppendParent_def
      fun_eq_iff)

lemma sharedIdentity_round:
  assumes "''s'' \<in> visited" "''a'' \<in> visited"
  shows "bfsCheckCycle d sharedIdentityCycleHeap [2] visited incomplete = None \<and>
         bfsCheckCycle d sharedIdentityCycleHeap [3] visited incomplete = None"
  using assms
proof (induction d arbitrary: visited incomplete)
  case 0
  then show ?case by simp
next
  case (Suc d)
  have "bfsCheckCycle (Suc d) sharedIdentityCycleHeap [2] visited incomplete =
      bfsCheckCycle d sharedIdentityCycleHeap [3] (insert ''a'' visited) (incomplete(''a'' := None))"
    using Suc.prems
    by (simp add: isParentCompleted_def sharedIdentityCycleHeap_def node_def)
  moreover have "bfsCheckCycle (Suc d) sharedIdentityCycleHeap [3] visited incomplete =
      bfsCheckCycle d sharedIdentityCycleHeap [2] (insert ''s'' visited) (incomplete(''s'' := None))"
    using Suc.prems
    by (simp add: isParentCompleted_def sharedIdentityCycleHeap_def node_def)
  ultimately show ?case using Suc.IH Suc.prems by simp
qed

lemma HasCycle_shared_identity_diverges:
  "HasCycle d sharedIdentityCycleHeap 0 = None"
proof -
  have "bfsCheckCycle d sharedIdentityCycleHeap [0] {} Map.empty = None"
  proof (cases d)
    case 0
    then show ?thesis by simp
  next
    case d1: (Suc d1)
    show ?thesis
    proof (cases d1)
      case 0
      with d1 show ?thesis
        by (simp add: isParentCompleted_def sharedIdentityCycleHeap_def node_def)
    next
      case (Suc d2)
      have "bfsCheckCycle d sharedIdentityCycleHeap [0] {} Map.empty =
          bfsCheckCycle d2 sharedIdentityCycleHeap [2] {''s'', virtualTaskRootID}
            ((Map.empty(virtualTaskRootID := None))(''s'' := None))"
        using d1 Suc
        by (simp add: isParentCompleted_def sharedIdentityCycleHeap_def node_def)
      also have "\<dots> = None"
      proof (cases d2)
        case 0
        then show ?thesis by simp
      next
        case d3: (Suc d3)
        have "bfsCheckCycle d2 sharedIdentityCycleHeap [2] {''s'', virtualTaskRootID}
            ((Map.empty(virtualTaskRootID := None))(''s'' := None)) =
          bfsCheckCycle d3 sharedIdentityCycleHeap [3] {''a'', ''s'', virtualTaskRootID}
            (((Map.empty(virtualTaskRootID := None))(''s'' := None))(''a'' := None))"
          using d3 by (simp add: isParentCompleted_def sharedIdentityCycleHeap_def node_def)
        also have "\<dots> = None" by (rule sharedIdentity_round [THEN conjunct2]) simp_all
        finally show ?thesis .
      qed
      finally show ?thesis .
    qed
  qed
  then show ?thesis by (simp add: HasCycle_def)
qed

text \<open>
  On every acyclic graph that \<^verbatim>\<open>BuildRootNode\<close> builds, the gated walk from the root
  completes, and its order no longer depends on the depth bound once that is large
  enough.
\<close>

lemma walkOrder_le: "walkOrder d h t = Some vs \<Longrightarrow> d \<le> d' \<Longrightarrow> walkOrder d' h t = Some vs"
proof (induction d' arbitrary: d)
  case 0
  then show ?case by simp
next
  case (Suc d')
  show ?case
  proof (cases "d = Suc d'")
    case True
    with Suc.prems show ?thesis by simp
  next
    case False
    with Suc.prems have "d \<le> d'" by simp
    from Suc.IH [OF Suc.prems(1) this] show ?thesis by (rule walkOrder_Suc)
  qed
qed

lemma walkOrder_built_acyclic:
  assumes b: "BuildRootNode tasks = Inr (h, root)" and a: "acyclic (dependsOn h)"
  shows "\<exists>d vs. \<forall>d'\<ge>d. walkOrder d' h root = Some vs"
proof -
  let ?n = "length tasks"
  from BuildRootNode_wellLinked [OF b] have wl: "wellLinked h root ?n" by auto
  have res: "resolvable h v" for v
    using resolvable_iff [OF wl, of v] acyclic_resolvable [OF a, of v] by simp
  obtain L where L: "\<forall>v\<le>?n. level h v < L" using level_bound by blast
  have rk: "L - level h c < L - level h x" if "c \<in> set (children (h x))" for x c
  proof -
    from wl that have "c \<le> ?n" by (rule wl_child_le)
    with L have "level h c < L" by blast
    moreover from that have "x \<in> set (parents (h c))" by (simp add: wl_sym [OF wl])
    from level_parents [OF res this] have "level h x < level h c" by simp
    ultimately show ?thesis by arith
  qed
  have "\<exists>vs. walkOrder (Suc (L - level h root)) h root = Some vs"
    by (rule walkOrder_total [where rk = "\<lambda>v. L - level h v"]) (use rk in auto)
  then obtain vs where w: "walkOrder (Suc (L - level h root)) h root = Some vs" by blast
  have "\<forall>d'\<ge>Suc (L - level h root). walkOrder d' h root = Some vs"
    using walkOrder_le [OF w] by blast
  then show ?thesis by blast
qed

subsection \<open>The visiting order is what the walk does\<close>

text \<open>
  \<^const>\<open>walkOrder\<close> is the list of nodes that \<^verbatim>\<open>dfsWalk\<close> hands to a callback which
  never stops the walk and never writes a node, in the order of the calls; and the one
  returns within a depth exactly when the other does.
\<close>

lemma recordVisit_apply: "recordVisit v (h, acc) = (True, h, acc @ [v])"
  by (simp add: recordVisit_def)

lemma dfsWalk_children_recordVisit:
  assumes IH: "\<And>t acc. dfsWalk d t recordVisit False (h, acc) =
                 map_option (\<lambda>vs. (True, h, acc @ vs)) (walkOrder d h t)"
  shows "dfsWalk_children d cs recordVisit False (h, acc) =
           map_option (\<lambda>vs. (True, h, acc @ vs)) (walkOrder_children d h cs)"
proof (induction cs arbitrary: acc)
  case Nil
  then show ?case by simp
next
  case (Cons c cs)
  show ?case
  proof (cases "1 < length (parents (h c)) \<and> \<not> CanBeExecuted h c")
    case True
    with Cons show ?thesis by simp
  next
    case nskip: False
    show ?thesis
    proof (cases "walkOrder d h c")
      case None
      with nskip IH [of c acc] show ?thesis by auto
    next
      case (Some xs)
      with nskip IH [of c acc] Cons.IH [of "acc @ xs"] show ?thesis
        by (cases "walkOrder_children d h cs") auto
    qed
  qed
qed

lemma dfsWalk_recordVisit:
  "dfsWalk d t recordVisit False (h, acc) =
     map_option (\<lambda>vs. (True, h, acc @ vs)) (walkOrder d h t)"
proof (induction d arbitrary: t acc)
  case 0
  then show ?case by simp
next
  case (Suc d)
  have ch: "dfsWalk_children d cs recordVisit False (h, acc') =
      map_option (\<lambda>vs. (True, h, acc' @ vs)) (walkOrder_children d h cs)" for cs acc'
    by (rule dfsWalk_children_recordVisit) (rule Suc.IH)
  show ?case
    by (cases "walkOrder_children d h (children (h t))")
      (auto simp: recordVisit_apply ch)
qed

lemma walkOrder_iff_recordVisit:
  "walkOrder d h t = Some vs \<longleftrightarrow>
     dfsWalk d t recordVisit False (h, []) = Some (True, h, vs)"
  by (cases "walkOrder d h t") (simp_all add: dfsWalk_recordVisit)

section \<open>Where the gated walk arrives\<close>

text \<open>
  The walk of \<^verbatim>\<open>GetNextTaskIds\<close> goes where the walk with \<^const>\<open>seekIdentity\<close> goes:
  its callback passes every node that does not carry the identity of the record without
  writing anything, and stops at the first node that does. So \<^verbatim>\<open>GetNextTaskIds\<close>
  returns exactly when that walk does, and \<^const>\<open>firstReached\<close> tells what it returns.
  Nothing here asks the walk that no callback stops to come to an end.
\<close>

lemma build_selfDependent: "BuildRootNode selfDependent = Inr (selfDependentHeap, 0)"
  by (simp add: BuildRootNode_def buildGraphNodeMap_def selfDependent_def task_def
      selfDependentHeap_def node_def NewTaskNodeFromGetter_def AppendChild_def AppendParent_def
      fun_eq_iff)

lemma seekIdentity_apply:
  "seekIdentity i v (h, fnd) =
     (if TaskInsID (h v) = i then (False, h, Some v) else (True, h, fnd))"
  by (simp add: seekIdentity_def)

lemma seek_children_shape:
  assumes IH: "\<And>t x. dfsWalk d t (seekIdentity i) b (h, None) = Some x \<Longrightarrow> seekShape h i x"
  shows "dfsWalk_children d cs (seekIdentity i) b (h, None) = Some x \<Longrightarrow> seekShape h i x"
proof (induction cs)
  case Nil
  then show ?case by (auto simp: seekShape_def)
next
  case (Cons c cs)
  show ?case
  proof (cases "1 < length (parents (h c)) \<and> \<not> CanBeExecuted h c")
    case True
    with Cons show ?thesis by simp
  next
    case nskip: False
    with Cons.prems obtain go h1 fnd where
      w: "dfsWalk d c (seekIdentity i) b (h, None) = Some (go, h1, fnd)"
      by (auto split: option.splits)
    from IH [OF w] have sh: "seekShape h i (go, h1, fnd)" .
    show ?thesis
    proof (cases go)
      case True
      with sh have "h1 = h" "fnd = None" by (auto simp: seekShape_def)
      with Cons.prems nskip w True have
        "dfsWalk_children d cs (seekIdentity i) b (h, None) = Some x" by auto
      then show ?thesis by (rule Cons.IH)
    next
      case False
      with Cons.prems nskip w have "x = (go, h1, fnd)" by auto
      with sh show ?thesis by simp
    qed
  qed
qed

lemma seek_shape:
  "dfsWalk d t (seekIdentity i) b (h, None) = Some x \<Longrightarrow> seekShape h i x"
proof (induction d arbitrary: t x)
  case 0
  then show ?case by simp
next
  case (Suc d)
  have ch: "\<And>cs x. dfsWalk_children d cs (seekIdentity i) b (h, None) = Some x \<Longrightarrow> seekShape h i x"
    by (rule seek_children_shape) (rule Suc.IH)
  from Suc.prems show ?case
    by (auto simp: seekIdentity_apply seekShape_def split: if_splits dest: ch)
qed

lemma advance_match:
  "ID r = TaskInsID (h v) \<Longrightarrow> \<not> fst (GetNextTaskIds_walkFunc r v (h, ex, fnd))"
  by (simp add: GetNextTaskIds_walkFunc_def Let_def)

lemma advance_pass:
  "ID r \<noteq> TaskInsID (h v) \<Longrightarrow> GetNextTaskIds_walkFunc r v (h, ex, fnd) = (True, h, ex, fnd)"
  by (simp add: GetNextTaskIds_walkFunc_def)

lemma advance_children_seek:
  assumes IH: "\<And>t. dfsWalk d t (GetNextTaskIds_walkFunc r) False (h, [], False) =
       map_option (\<lambda>x. case snd (snd x) of None \<Rightarrow> (True, h, [], False)
                        | Some v \<Rightarrow> GetNextTaskIds_walkFunc r v (h, [], False))
         (dfsWalk d t (seekIdentity (ID r)) False (h, None))"
  shows "dfsWalk_children d cs (GetNextTaskIds_walkFunc r) False (h, [], False) =
       map_option (\<lambda>x. case snd (snd x) of None \<Rightarrow> (True, h, [], False)
                        | Some v \<Rightarrow> GetNextTaskIds_walkFunc r v (h, [], False))
         (dfsWalk_children d cs (seekIdentity (ID r)) False (h, None))"
proof (induction cs)
  case Nil
  then show ?case by simp
next
  case (Cons c cs)
  show ?case
  proof (cases "1 < length (parents (h c)) \<and> \<not> CanBeExecuted h c")
    case True
    with Cons show ?thesis by simp
  next
    case nskip: False
    show ?thesis
    proof (cases "dfsWalk d c (seekIdentity (ID r)) False (h, None)")
      case None
      with nskip IH [of c] show ?thesis by auto
    next
      case (Some x)
      obtain go h1 fnd where x: "x = (go, h1, fnd)" by (cases x) auto
      from seek_shape [OF Some] x have sh: "seekShape h (ID r) (go, h1, fnd)" by simp
      show ?thesis
      proof (cases go)
        case True
        with sh have e: "h1 = h" "fnd = None" by (auto simp: seekShape_def)
        with nskip IH [of c] Some x True Cons.IH show ?thesis by auto
      next
        case False
        with sh obtain v where e: "h1 = h" "fnd = Some v" "TaskInsID (h v) = ID r"
          by (auto simp: seekShape_def)
        obtain g1 s1 where f: "GetNextTaskIds_walkFunc r v (h, [], False) = (g1, s1)"
          by (cases "GetNextTaskIds_walkFunc r v (h, [], False)") auto
        with advance_match [of r h v "[]" False] e have "\<not> g1" by simp
        with nskip IH [of c] Some x False e f show ?thesis by auto
      qed
    qed
  qed
qed

lemma advance_seek:
  "dfsWalk d t (GetNextTaskIds_walkFunc r) False (h, [], False) =
     map_option (\<lambda>x. case snd (snd x) of None \<Rightarrow> (True, h, [], False)
                      | Some v \<Rightarrow> GetNextTaskIds_walkFunc r v (h, [], False))
       (dfsWalk d t (seekIdentity (ID r)) False (h, None))"
proof (induction d arbitrary: t)
  case 0
  then show ?case by simp
next
  case (Suc d)
  note ch = advance_children_seek [of d r h, OF Suc.IH]
  show ?case
  proof (cases "TaskInsID (h t) \<noteq> virtualTaskRootID \<and> ID r = TaskInsID (h t)")
    case True
    obtain g1 s1 where f: "GetNextTaskIds_walkFunc r t (h, [], False) = (g1, s1)"
      by (cases "GetNextTaskIds_walkFunc r t (h, [], False)") auto
    with advance_match [of r h t "[]" False] True have "\<not> g1" by simp
    with True f show ?thesis by (simp add: seekIdentity_apply)
  next
    case False
    then show ?thesis
      by (auto simp: seekIdentity_apply advance_pass ch)
  qed
qed

lemma GetNextTaskIds_firstReached:
  "GetNextTaskIds d h t r =
     (case firstReached d h t (ID r) of
        None \<Rightarrow> Inl DepthExceeded
      | Some None \<Rightarrow> Inr (([], False), h)
      | Some (Some v) \<Rightarrow>
          (case GetNextTaskIds_walkFunc r v (h, [], False) of
             (go, h', res) \<Rightarrow> Inr (res, h')))"
  by (simp add: GetNextTaskIds_def walkNode_def firstReached_def advance_seek
      split: option.splits prod.splits)

lemma firstReached_identity:
  assumes "firstReached d h t i = Some (Some v)"
  shows "TaskInsID (h v) = i"
proof -
  from assms obtain go h1 where
    w: "dfsWalk d t (seekIdentity i) False (h, None) = Some (go, h1, Some v)"
    by (auto simp: firstReached_def)
  from seek_shape [OF w] show ?thesis by (auto simp: seekShape_def split: if_splits)
qed

lemma runOver_seekIdentity:
  "runOver (seekIdentity i) vs (h, None) =
     (case List.find (\<lambda>v. TaskInsID (h v) = i) vs of
        None \<Rightarrow> (True, h, None)
      | Some v \<Rightarrow> (False, h, Some v))"
  by (induction vs) (auto simp: seekIdentity_apply)

lemma stable_seekIdentity: "stableWhileTrue (seekIdentity i)"
  by (simp add: stableWhileTrue_def seekIdentity_apply)

lemma firstReached_walkOrder:
  assumes "walkOrder d h t = Some vs"
  shows "firstReached d h t i = Some (List.find (\<lambda>v. TaskInsID (h v) = i) vs)"
  using dfsWalk_runOver [OF stable_seekIdentity assms, of i None]
  by (simp add: firstReached_def runOver_seekIdentity split: option.splits)

text \<open>
  A walk that returns within a depth returns the same within every larger depth; and on
  an acyclic graph that \<^verbatim>\<open>BuildRootNode\<close> builds every walk returns.
\<close>

lemma dfsWalk_children_Suc:
  assumes IH: "\<And>t s x. dfsWalk d t f b s = Some x \<Longrightarrow> dfsWalk (Suc d) t f b s = Some x"
  shows "dfsWalk_children d cs f b s = Some x \<Longrightarrow> dfsWalk_children (Suc d) cs f b s = Some x"
proof (induction cs arbitrary: s)
  case Nil
  then show ?case by simp
next
  case (Cons c cs)
  show ?case
  proof (cases "1 < length (parents (fst s c)) \<and> \<not> CanBeExecuted (fst s) c")
    case True
    with Cons show ?thesis by simp
  next
    case nskip: False
    with Cons.prems obtain go s1 where
      w: "dfsWalk d c f b s = Some (go, s1)"
      by (auto split: option.splits)
    note w' = IH [OF w]
    show ?thesis
    proof (cases go)
      case True
      with Cons.prems nskip w have "dfsWalk_children d cs f b s1 = Some x" by auto
      from Cons.IH [OF this] nskip w' True show ?thesis
        by (auto simp del: dfsWalk.simps)
    next
      case False
      with Cons.prems nskip w w' show ?thesis by (auto simp del: dfsWalk.simps)
    qed
  qed
qed

lemma dfsWalk_Suc: "dfsWalk d t f b s = Some x \<Longrightarrow> dfsWalk (Suc d) t f b s = Some x"
proof (induction d arbitrary: t s x)
  case 0
  then show ?case by simp
next
  case (Suc d)
  have ch: "\<And>cs s x. dfsWalk_children d cs f b s = Some x \<Longrightarrow>
                     dfsWalk_children (Suc d) cs f b s = Some x"
    by (rule dfsWalk_children_Suc) (rule Suc.IH)
  obtain go s1 where c: "(if TaskInsID (fst s t) \<noteq> virtualTaskRootID then f t s else (True, s)) = (go, s1)"
    by (cases "if TaskInsID (fst s t) \<noteq> virtualTaskRootID then f t s else (True, s)") auto
  show ?case
  proof (cases "\<not> go \<or> (\<not> b \<and> \<not> CanExecuteChild (fst s1) t)")
    case True
    with Suc.prems c show ?thesis by (auto split: if_splits)
  next
    case False
    with Suc.prems c have "dfsWalk_children d (children (fst s1 t)) f b s1 = Some x"
      by (auto split: if_splits)
    from ch [OF this] False c show ?thesis
      by (subst dfsWalk.simps) (auto simp del: dfsWalk.simps split: if_splits)
  qed
qed

lemma dfsWalk_le: "dfsWalk d t f b s = Some x \<Longrightarrow> d \<le> d' \<Longrightarrow> dfsWalk d' t f b s = Some x"
proof (induction d' )
  case 0
  then show ?case by simp
next
  case (Suc d')
  show ?case
  proof (cases "d = Suc d'")
    case True
    with Suc.prems show ?thesis by simp
  next
    case False
    with Suc.prems have "d \<le> d'" by simp
    from Suc.IH [OF Suc.prems(1) this] show ?thesis by (rule dfsWalk_Suc)
  qed
qed

lemma firstReached_le:
  "firstReached d h t i = Some x \<Longrightarrow> d \<le> d' \<Longrightarrow> firstReached d' h t i = Some x"
  by (auto simp: firstReached_def dest: dfsWalk_le)

lemma firstReached_built_acyclic:
  assumes "BuildRootNode tasks = Inr (h, root)" and "acyclic (dependsOn h)"
  shows "\<exists>d x. \<forall>d'\<ge>d. firstReached d' h root i = Some x"
proof -
  from walkOrder_built_acyclic [OF assms] obtain d vs where
    "\<forall>d'\<ge>d. walkOrder d' h root = Some vs" by blast
  then have "\<forall>d'\<ge>d. firstReached d' h root i = Some (List.find (\<lambda>v. TaskInsID (h v) = i) vs)"
    by (auto intro: firstReached_walkOrder)
  then show ?thesis by blast
qed

text \<open>
  In the store built from \<^const>\<open>selfDependent\<close> the walk arrives at S, T and A, in that
  order, and then descends from A into A for ever: it returns only when its callback
  stops it at one of the three.
\<close>

lemma selfDependent_nodes:
  "selfDependentHeap 0 = node virtualTaskRootID TaskInstanceStatusSuccess [1] []"
  "selfDependentHeap (Suc 0) = node ''S'' TaskInstanceStatusSuccess [2, 4] [0]"
  "selfDependentHeap 2 = node ''T'' TaskInstanceStatusRunning [3] [1]"
  "selfDependentHeap 3 = node ''U'' TaskInstanceStatusInit [] [2]"
  "selfDependentHeap 4 = node ''A'' TaskInstanceStatusSuccess [4] [1, 4]"
  by (simp_all add: selfDependentHeap_def)

lemma selfDependent_descends:
  assumes "\<And>c. f 4 (selfDependentHeap, c) = (True, selfDependentHeap, c)"
  shows "dfsWalk d 4 f False (selfDependentHeap, c) = None"
proof (induction d)
  case 0
  then show ?case by simp
next
  case (Suc d)
  then show ?case
    by (simp add: assms selfDependent_nodes CanExecuteChild_def CanBeExecuted_def node_def
        virtualTaskRootID_def)
qed

lemma selfDependent_U_not_reached: "firstReached d selfDependentHeap 0 ''U'' = None"
proof -
  have a: "dfsWalk d 4 (seekIdentity ''U'') False (selfDependentHeap, None) = None" for d
    by (rule selfDependent_descends) (simp add: seekIdentity_apply selfDependent_nodes node_def)
  have "dfsWalk d 0 (seekIdentity ''U'') False (selfDependentHeap, None) = None"
  proof (cases d)
    case 0
    then show ?thesis by simp
  next
    case d1: (Suc d1)
    show ?thesis
    proof (cases d1)
      case 0
      with d1 show ?thesis
        by (simp add: selfDependent_nodes CanExecuteChild_def CanBeExecuted_def node_def
            virtualTaskRootID_def)
    next
      case d2: (Suc d2)
      show ?thesis
      proof (cases d2)
        case 0
        with d1 d2 show ?thesis
          by (simp add: selfDependent_nodes CanExecuteChild_def CanBeExecuted_def node_def
              virtualTaskRootID_def seekIdentity_apply)
      next
        case (Suc d3)
        with d1 d2 a [of d2] show ?thesis
          by (simp add: selfDependent_nodes CanExecuteChild_def CanBeExecuted_def node_def
              virtualTaskRootID_def seekIdentity_apply)
      qed
    qed
  qed
  then show ?thesis by (simp add: firstReached_def)
qed

lemma selfDependent_U_no_return:
  "GetNextTaskIds d selfDependentHeap 0 \<lparr>ID = ''U'', DagInsID = g, InsStatus = st\<rparr> =
     Inl DepthExceeded"
  by (simp add: GetNextTaskIds_firstReached selfDependent_U_not_reached)

lemma selfDependent_reached:
  "firstReached 3 selfDependentHeap 0 ''T'' = Some (Some 2)"
  "firstReached 3 selfDependentHeap 0 ''A'' = Some (Some 4)"
  by (simp_all add: firstReached_def selfDependentHeap_def heap_eval eval_nat_numeral
      seekIdentity_apply)

lemma diamond_reached_B:
  "firstReached 4 (diamondHeap TaskInstanceStatusSuccess b c d) 0 ''B'' = Some (Some 2)"
  by (simp add: firstReached_def walk_eval seekIdentity_apply)

text \<open>
  The walk that seeks an identity ends without having found it exactly when the walk
  that no callback stops ends and none of the nodes in its order carries the identity.
\<close>

lemma seek_children_ends:
  assumes IH: "\<And>t h1 fnd. dfsWalk d t (seekIdentity i) False (h, None) = Some (True, h1, fnd) \<Longrightarrow>
                 \<exists>vs. walkOrder d h t = Some vs \<and> (\<forall>v\<in>set vs. TaskInsID (h v) \<noteq> i)"
  shows "dfsWalk_children d cs (seekIdentity i) False (h, None) = Some (True, h1, fnd) \<Longrightarrow>
           \<exists>vs. walkOrder_children d h cs = Some vs \<and> (\<forall>v\<in>set vs. TaskInsID (h v) \<noteq> i)"
proof (induction cs)
  case Nil
  then show ?case by simp
next
  case (Cons c cs)
  show ?case
  proof (cases "1 < length (parents (h c)) \<and> \<not> CanBeExecuted h c")
    case True
    with Cons show ?thesis by simp
  next
    case nskip: False
    with Cons.prems obtain go h2 f2 where
      w: "dfsWalk d c (seekIdentity i) False (h, None) = Some (go, h2, f2)"
      by (auto split: option.splits)
    from seek_shape [OF w] have sh: "seekShape h i (go, h2, f2)" .
    from Cons.prems nskip w have go: go by (auto split: if_splits)
    with sh have e: "h2 = h" "f2 = None" by (auto simp: seekShape_def)
    from IH [of c h2 f2] w go obtain xs where
      xs: "walkOrder d h c = Some xs" "\<forall>v\<in>set xs. TaskInsID (h v) \<noteq> i" by auto
    from Cons.prems nskip w go e have
      "dfsWalk_children d cs (seekIdentity i) False (h, None) = Some (True, h1, fnd)" by auto
    from Cons.IH [OF this] obtain ws where
      ws: "walkOrder_children d h cs = Some ws" "\<forall>v\<in>set ws. TaskInsID (h v) \<noteq> i" by auto
    from nskip xs ws show ?thesis by auto
  qed
qed

lemma seek_ends:
  "dfsWalk d t (seekIdentity i) False (h, None) = Some (True, h1, fnd) \<Longrightarrow>
     \<exists>vs. walkOrder d h t = Some vs \<and> (\<forall>v\<in>set vs. TaskInsID (h v) \<noteq> i)"
proof (induction d arbitrary: t h1 fnd)
  case 0
  then show ?case by simp
next
  case (Suc d)
  have ch: "\<And>cs h1 fnd.
      dfsWalk_children d cs (seekIdentity i) False (h, None) = Some (True, h1, fnd) \<Longrightarrow>
      \<exists>vs. walkOrder_children d h cs = Some vs \<and> (\<forall>v\<in>set vs. TaskInsID (h v) \<noteq> i)"
    by (rule seek_children_ends) (rule Suc.IH)
  show ?case
  proof (cases "CanExecuteChild h t")
    case False
    with Suc.prems show ?thesis
      by (auto simp: seekIdentity_apply split: if_splits)
  next
    case True
    with Suc.prems have
      w: "dfsWalk_children d (children (h t)) (seekIdentity i) False (h, None) = Some (True, h1, fnd)"
      and n: "TaskInsID (h t) \<noteq> virtualTaskRootID \<longrightarrow> TaskInsID (h t) \<noteq> i"
      by (auto simp: seekIdentity_apply split: if_splits)
    from ch [OF w] obtain ws where
      "walkOrder_children d h (children (h t)) = Some ws" "\<forall>v\<in>set ws. TaskInsID (h v) \<noteq> i"
      by auto
    with True n show ?thesis by auto
  qed
qed

lemma firstReached_None_iff:
  "firstReached d h t i = Some None \<longleftrightarrow>
     (\<exists>vs. walkOrder d h t = Some vs \<and> (\<forall>v\<in>set vs. TaskInsID (h v) \<noteq> i))"
proof
  assume "firstReached d h t i = Some None"
  then obtain go h1 where w: "dfsWalk d t (seekIdentity i) False (h, None) = Some (go, h1, None)"
    by (auto simp: firstReached_def)
  from seek_shape [OF w] have go by (auto simp: seekShape_def split: if_splits)
  with w show "\<exists>vs. walkOrder d h t = Some vs \<and> (\<forall>v\<in>set vs. TaskInsID (h v) \<noteq> i)"
    by (auto dest: seek_ends)
next
  assume "\<exists>vs. walkOrder d h t = Some vs \<and> (\<forall>v\<in>set vs. TaskInsID (h v) \<noteq> i)"
  then obtain vs where w: "walkOrder d h t = Some vs" and n: "\<forall>v\<in>set vs. TaskInsID (h v) \<noteq> i"
    by blast
  from n have "List.find (\<lambda>v. TaskInsID (h v) = i) vs = None" by (simp add: find_None_iff)
  with firstReached_walkOrder [OF w, of i] show "firstReached d h t i = Some None" by simp
qed

section \<open>Claims\<close>

text \<open>
  Claim C4. A node is executable if and only if its status is one of Init, Retrying,
  Continue and Ending and it has no parents or every parent has status Success or
  Skipped. In the diamond A\<rightarrow>B, A\<rightarrow>C, B\<rightarrow>D, C\<rightarrow>D as \<^verbatim>\<open>BuildRootNode\<close> builds it, with D in
  status Init and any statuses of A, B and C: D (at address 4) is executable exactly
  when both B and C have status Success or Skipped; and the list of the finder, which
  reaches B, C and D only through A, holds D exactly when A, B and C all have status
  Success or Skipped, so D is absent from it while B or C has another status.
\<close>

theorem Executable_iff_diamond:
  "(Executable h t \<longleftrightarrow>
      (Status (h t) = TaskInstanceStatusInit \<or> Status (h t) = TaskInstanceStatusRetrying \<or>
       Status (h t) = TaskInstanceStatusContinue \<or> Status (h t) = TaskInstanceStatusEnding) \<and>
      (parents (h t) = [] \<or>
       (\<forall>p\<in>set (parents (h t)).
          Status (h p) = TaskInstanceStatusSuccess \<or> Status (h p) = TaskInstanceStatusSkipped))) \<and>
   BuildRootNode (diamond a b c TaskInstanceStatusInit) =
     Inr (diamondHeap a b c TaskInstanceStatusInit, 0) \<and>
   (Executable (diamondHeap a b c TaskInstanceStatusInit) 4 \<longleftrightarrow>
      (b = TaskInstanceStatusSuccess \<or> b = TaskInstanceStatusSkipped) \<and>
      (c = TaskInstanceStatusSuccess \<or> c = TaskInstanceStatusSkipped)) \<and>
   (\<exists>ids. GetExecutableTaskIds 4 (diamondHeap a b c TaskInstanceStatusInit) 0 =
            Inr (ids, diamondHeap a b c TaskInstanceStatusInit) \<and>
          (''D'' \<in> set ids \<longleftrightarrow>
             (a = TaskInstanceStatusSuccess \<or> a = TaskInstanceStatusSkipped) \<and>
             (b = TaskInstanceStatusSuccess \<or> b = TaskInstanceStatusSkipped) \<and>
             (c = TaskInstanceStatusSuccess \<or> c = TaskInstanceStatusSkipped)))"
  using Executable_iff [of h t] build_diamond [of a b c TaskInstanceStatusInit]
    diamond_D_Executable [of a b c] diamond_finder [of a b c]
  by blast

theorem Executable_iff_diamond_witness:
  "Executable (diamondHeap TaskInstanceStatusSuccess TaskInstanceStatusSuccess
       TaskInstanceStatusSkipped TaskInstanceStatusInit) 4 \<and>
   \<not> Executable (diamondHeap TaskInstanceStatusSuccess TaskInstanceStatusSuccess
       TaskInstanceStatusRunning TaskInstanceStatusInit) 4 \<and>
   \<not> Executable (diamondHeap TaskInstanceStatusSuccess TaskInstanceStatusSuccess
       TaskInstanceStatusSuccess TaskInstanceStatusSuccess) 4 \<and>
   Executable (diamondHeap TaskInstanceStatusRetrying TaskInstanceStatusInit
       TaskInstanceStatusInit TaskInstanceStatusInit) 1"
proof -
  let ?S = TaskInstanceStatusSuccess
  let ?I = TaskInstanceStatusInit
  have "Executable (diamondHeap ?S ?S TaskInstanceStatusSkipped ?I) 4"
    using Executable_iff_diamond [of "diamondHeap ?S ?S TaskInstanceStatusSkipped ?I" 4 ?S ?S ?S]
    by (simp add: diamondHeap_def node_def)
  moreover have "\<not> Executable (diamondHeap ?S ?S TaskInstanceStatusRunning ?I) 4"
    using Executable_iff_diamond [of "diamondHeap ?S ?S TaskInstanceStatusRunning ?I" 4 ?S ?S ?S]
    by (simp add: diamondHeap_def node_def)
  moreover have "\<not> Executable (diamondHeap ?S ?S ?S ?S) 4"
    using Executable_iff_diamond [of "diamondHeap ?S ?S ?S ?S" 4 ?S ?S ?S]
    by (simp add: diamondHeap_def node_def)
  moreover have "Executable (diamondHeap TaskInstanceStatusRetrying ?I ?I ?I) 1"
    using Executable_iff_diamond [of "diamondHeap TaskInstanceStatusRetrying ?I ?I ?I" 1 ?S ?S ?S]
    by (simp add: diamondHeap_def node_def emptyHeap_def)
  ultimately show ?thesis by blast
qed

text \<open>
  Claim C2, the failing input. In the diamond with A, B and C in status Success and D in
  status Init, the gated walk reaches D once below B and once below C, and the list
  \<^verbatim>\<open>GetExecutableTaskIds\<close> returns holds the identity of D twice.
\<close>

theorem GetExecutableTaskIds_diamond_twice:
  "BuildRootNode (diamond TaskInstanceStatusSuccess TaskInstanceStatusSuccess
       TaskInstanceStatusSuccess TaskInstanceStatusInit) =
     Inr (diamondHeap TaskInstanceStatusSuccess TaskInstanceStatusSuccess
            TaskInstanceStatusSuccess TaskInstanceStatusInit, 0) \<and>
   GetExecutableTaskIds 4 (diamondHeap TaskInstanceStatusSuccess TaskInstanceStatusSuccess
       TaskInstanceStatusSuccess TaskInstanceStatusInit) 0 =
     Inr ([''D'', ''D''], diamondHeap TaskInstanceStatusSuccess TaskInstanceStatusSuccess
            TaskInstanceStatusSuccess TaskInstanceStatusInit)"
  by (simp add: build_diamond GetExecutableTaskIds_def walkNode_def
      GetExecutableTaskIds_walkFunc_def diamondHeap_def heap_eval eval_nat_numeral)

text \<open>
  Claim C9. Whenever \<^verbatim>\<open>ComputeStatus\<close> or \<^verbatim>\<open>GetExecutableTaskIds\<close> returns, the
  store of nodes is the one it was called on: every status and every parent and child
  list is as before. Whenever \<^verbatim>\<open>GetNextTaskIds\<close> returns, the store is either
  unchanged or differs in the status field of one node whose identity is that of the
  record, which now holds the record's status: the identity and the parent and child
  lists of every node are as before, and a node whose status differs carries the
  record's identity and is the only one. This holds for every store, root, depth bound
  and collaborator.
\<close>

theorem walks_frame:
  "(ComputeStatus d store h t = Inr (r1, h1) \<longrightarrow> h1 = h) \<and>
   (GetExecutableTaskIds d h t = Inr (r2, h2) \<longrightarrow> h2 = h) \<and>
   (GetNextTaskIds d h t r = Inr (r3, h3) \<longrightarrow>
      (h3 = h \<or> (\<exists>v. TaskInsID (h v) = ID r \<and> h3 = h(v := (h v)\<lparr>Status := InsStatus r\<rparr>))) \<and>
      (\<forall>a. children (h3 a) = children (h a) \<and> parents (h3 a) = parents (h a) \<and>
           TaskInsID (h3 a) = TaskInsID (h a)) \<and>
      (\<forall>a b. Status (h3 a) \<noteq> Status (h a) \<longrightarrow>
           TaskInsID (h a) = ID r \<and> (b \<noteq> a \<longrightarrow> Status (h3 b) = Status (h b))))"
proof (intro conjI impI)
  assume "ComputeStatus d store h t = Inr (r1, h1)"
  then show "h1 = h" by (rule ComputeStatus_frame)
next
  assume "GetExecutableTaskIds d h t = Inr (r2, h2)"
  then show "h2 = h" by (rule GetExecutableTaskIds_frame)
next
  assume a: "GetNextTaskIds d h t r = Inr (r3, h3)"
  note f = GetNextTaskIds_frame [OF a]
  from f show "h3 = h \<or> (\<exists>v. TaskInsID (h v) = ID r \<and> h3 = h(v := (h v)\<lparr>Status := InsStatus r\<rparr>))" .
  from f show "\<forall>a. children (h3 a) = children (h a) \<and> parents (h3 a) = parents (h a) \<and>
           TaskInsID (h3 a) = TaskInsID (h a)"
    by auto
  from f show "\<forall>a b. Status (h3 a) \<noteq> Status (h a) \<longrightarrow>
           TaskInsID (h a) = ID r \<and> (b \<noteq> a \<longrightarrow> Status (h3 b) = Status (h b))"
    by (auto split: if_splits)
qed

text \<open>
  Witness for C9: the diamond with A and B in status Success and C and D in status Init.
  The aggregator and the finder return with the store unchanged; the advancer, told
  that C succeeded, returns D and the store in which only the status of C differs.
\<close>

theorem walks_frame_witness:
  "ComputeStatus 4 failingStore
      (diamondHeap TaskInstanceStatusSuccess TaskInstanceStatusSuccess TaskInstanceStatusInit
         TaskInstanceStatusInit) 0 =
     Inr ((TreeStatusRunning, ''C''),
       diamondHeap TaskInstanceStatusSuccess TaskInstanceStatusSuccess TaskInstanceStatusInit
         TaskInstanceStatusInit) \<and>
   GetExecutableTaskIds 4
      (diamondHeap TaskInstanceStatusSuccess TaskInstanceStatusSuccess TaskInstanceStatusInit
         TaskInstanceStatusInit) 0 =
     Inr ([''C''],
       diamondHeap TaskInstanceStatusSuccess TaskInstanceStatusSuccess TaskInstanceStatusInit
         TaskInstanceStatusInit) \<and>
   GetNextTaskIds 4
      (diamondHeap TaskInstanceStatusSuccess TaskInstanceStatusSuccess TaskInstanceStatusInit
         TaskInstanceStatusInit) 0
      \<lparr>ID = ''C'', DagInsID = ''run'', InsStatus = TaskInstanceStatusSuccess\<rparr> =
     Inr (([''D''], True),
       diamondHeap TaskInstanceStatusSuccess TaskInstanceStatusSuccess TaskInstanceStatusSuccess
         TaskInstanceStatusInit)"
proof -
  let ?h = "diamondHeap TaskInstanceStatusSuccess TaskInstanceStatusSuccess TaskInstanceStatusInit
         TaskInstanceStatusInit"
  let ?r = "\<lparr>ID = ''C'', DagInsID = ''run'', InsStatus = TaskInstanceStatusSuccess\<rparr>"
  have c: "\<exists>h'. ComputeStatus 4 failingStore ?h 0 = Inr ((TreeStatusRunning, ''C''), h')"
    by (simp add: ComputeStatus_def walkNode_def ComputeStatus_walkFunc_def endTaskSucceeded_def
        failingStore_def diamondHeap_def heap_eval eval_nat_numeral)
  have e: "\<exists>h'. GetExecutableTaskIds 4 ?h 0 = Inr ([''C''], h')"
    by (simp add: GetExecutableTaskIds_def walkNode_def GetExecutableTaskIds_walkFunc_def
        diamondHeap_def heap_eval eval_nat_numeral)
  have n: "\<exists>h'. GetNextTaskIds 4 ?h 0 ?r = Inr (([''D''], True), h')
       \<and> Status (h' 3) = TaskInstanceStatusSuccess"
    by (simp add: GetNextTaskIds_def walkNode_def GetNextTaskIds_walkFunc_def
        diamondHeap_def heap_eval eval_nat_numeral)
  from c obtain h1 where c1: "ComputeStatus 4 failingStore ?h 0 = Inr ((TreeStatusRunning, ''C''), h1)"
    by blast
  from e obtain h2 where e1: "GetExecutableTaskIds 4 ?h 0 = Inr ([''C''], h2)" by blast
  from n obtain h3 where n1: "GetNextTaskIds 4 ?h 0 ?r = Inr (([''D''], True), h3)"
    and s3: "Status (h3 3) = TaskInstanceStatusSuccess" by blast
  note w = walks_frame [of 4 failingStore ?h 0 "(TreeStatusRunning, ''C'')" h1 "[''C'']" h2 ?r
      "([''D''], True)" h3]
  from w c1 have "h1 = ?h" by blast
  moreover from w e1 have "h2 = ?h" by blast
  moreover have "h3 = diamondHeap TaskInstanceStatusSuccess TaskInstanceStatusSuccess
      TaskInstanceStatusSuccess TaskInstanceStatusInit"
  proof -
    from w n1 have "h3 = ?h \<or> (\<exists>v. TaskInsID (?h v) = ID ?r \<and> h3 = ?h(v := (?h v)\<lparr>Status := InsStatus ?r\<rparr>))"
      by blast
    moreover have "Status (?h 3) \<noteq> TaskInstanceStatusSuccess" by (simp add: diamondHeap_def node_def)
    moreover have "v = 3" if "TaskInsID (?h v) = ID ?r" for v
      using that by (simp add: diamondHeap_def heap_eval split: if_splits)
    ultimately have "h3 = ?h(3 := (?h 3)\<lparr>Status := TaskInstanceStatusSuccess\<rparr>)"
      using s3 by auto
    then show ?thesis by (simp add: diamondHeap_def node_def fun_eq_iff)
  qed
  ultimately show ?thesis using c1 e1 n1 by simp
qed

text \<open>
  Claim C8. Let the gated walk from the root arrive at \<open>v\<close>, the first node it is
  handed that carries the identity of the record (with identities unique per run: the
  node with that identity, reached by the walk); the walk that no callback stops need
  not come to an end. When the record's status is Init, \<^verbatim>\<open>GetNextTaskIds\<close> returns
  the list holding exactly the identity of \<open>v\<close>, with found true, and the store in
  which the status of \<open>v\<close> is Init and no other node differs: every child of \<open>v\<close>
  other than \<open>v\<close> itself is as before.
\<close>

theorem GetNextTaskIds_Init:
  assumes "firstReached d h t (ID r) = Some (Some v)"
    and "InsStatus r = TaskInstanceStatusInit"
  shows "GetNextTaskIds d h t r =
           Inr (([ID r], True), h(v := (h v)\<lparr>Status := TaskInstanceStatusInit\<rparr>)) \<and>
         TaskInsID (h v) = ID r \<and>
         (\<forall>c. c \<noteq> v \<longrightarrow> (h(v := (h v)\<lparr>Status := TaskInstanceStatusInit\<rparr>)) c = h c)"
  using assms firstReached_identity [OF assms(1)]
  by (simp add: GetNextTaskIds_firstReached GetNextTaskIds_walkFunc_def)

text \<open>
  Witness for C8: in the diamond with every node in status Success a record for B with
  status Init returns B alone and sets B to Init; and in the store built from
  \<^const>\<open>selfDependent\<close>, where the walk that no callback stops never ends, a record
  for T with status Init returns T alone and sets T to Init.
\<close>

theorem GetNextTaskIds_Init_witness:
  "GetNextTaskIds 4
      (diamondHeap TaskInstanceStatusSuccess TaskInstanceStatusSuccess TaskInstanceStatusSuccess
         TaskInstanceStatusSuccess) 0
      \<lparr>ID = ''B'', DagInsID = ''run'', InsStatus = TaskInstanceStatusInit\<rparr> =
     Inr (([''B''], True),
       diamondHeap TaskInstanceStatusSuccess TaskInstanceStatusInit TaskInstanceStatusSuccess
         TaskInstanceStatusSuccess) \<and>
   GetNextTaskIds 3 selfDependentHeap 0
      \<lparr>ID = ''T'', DagInsID = ''run'', InsStatus = TaskInstanceStatusInit\<rparr> =
     Inr (([''T''], True),
       selfDependentHeap(2 := node ''T'' TaskInstanceStatusInit [3] [1]))"
proof -
  let ?h = "diamondHeap TaskInstanceStatusSuccess TaskInstanceStatusSuccess TaskInstanceStatusSuccess
         TaskInstanceStatusSuccess"
  let ?r = "\<lparr>ID = ''B'', DagInsID = ''run'', InsStatus = TaskInstanceStatusInit\<rparr>"
  let ?q = "\<lparr>ID = ''T'', DagInsID = ''run'', InsStatus = TaskInstanceStatusInit\<rparr>"
  have f: "firstReached 4 ?h 0 (ID ?r) = Some (Some 2)" by (simp add: diamond_reached_B)
  have g: "firstReached 3 selfDependentHeap 0 (ID ?q) = Some (Some 2)"
    by (simp add: selfDependent_reached)
  have a: "?h(2 := (?h 2)\<lparr>Status := TaskInstanceStatusInit\<rparr>) =
        diamondHeap TaskInstanceStatusSuccess TaskInstanceStatusInit TaskInstanceStatusSuccess
         TaskInstanceStatusSuccess"
    by (simp add: diamondHeap_def node_def fun_eq_iff)
  have b: "selfDependentHeap(2 := (selfDependentHeap 2)\<lparr>Status := TaskInstanceStatusInit\<rparr>) =
        selfDependentHeap(2 := node ''T'' TaskInstanceStatusInit [3] [1])"
    by (simp add: selfDependent_nodes node_def)
  from GetNextTaskIds_Init [OF f] GetNextTaskIds_Init [OF g] a b show ?thesis by simp
qed

text \<open>
  A node that depends on itself is its own child, and \<^verbatim>\<open>BuildRootNode\<close> accepts it.
  In the store built from \<^const>\<open>selfDependent\<close> the walk arrives at A, whose status
  is Success; a record for A with status Init returns A alone, and the status of A, a
  child of A, has changed from Success to Init.
\<close>

theorem GetNextTaskIds_Init_changes_own_child:
  "BuildRootNode selfDependent = Inr (selfDependentHeap, 0) \<and>
   firstReached 3 selfDependentHeap 0 ''A'' = Some (Some 4) \<and>
   4 \<in> set (children (selfDependentHeap 4)) \<and>
   Status (selfDependentHeap 4) = TaskInstanceStatusSuccess \<and>
   GetNextTaskIds 3 selfDependentHeap 0
      \<lparr>ID = ''A'', DagInsID = ''run'', InsStatus = TaskInstanceStatusInit\<rparr> =
     Inr (([''A''], True), selfDependentHeap(4 := node ''A'' TaskInstanceStatusInit [4] [1, 4])) \<and>
   Status ((selfDependentHeap(4 := node ''A'' TaskInstanceStatusInit [4] [1, 4])) 4) =
     TaskInstanceStatusInit"
proof -
  have "GetNextTaskIds 3 selfDependentHeap 0
      \<lparr>ID = ''A'', DagInsID = ''run'', InsStatus = TaskInstanceStatusInit\<rparr> =
     Inr (([''A''], True), selfDependentHeap(4 := node ''A'' TaskInstanceStatusInit [4] [1, 4]))"
    by (simp add: GetNextTaskIds_firstReached selfDependent_reached GetNextTaskIds_walkFunc_def
        selfDependent_nodes node_def)
  then show ?thesis
    by (simp add: build_selfDependent selfDependent_reached selfDependent_nodes node_def)
qed

text \<open>
  Claim C5. Under the same condition on the walk, when the record's status is Success
  or Skipped, \<^verbatim>\<open>GetNextTaskIds\<close> overwrites the status of \<open>v\<close> and returns, with
  found true, the identities of exactly those direct children of \<open>v\<close> that are
  executable in the updated store \<open>h'\<close>, in the order of the child list. Such a
  child is executable there exactly when its own status is one of Init, Retrying,
  Continue and Ending and each of its parents other than \<open>v\<close> has status Success or
  Skipped. Nothing but direct children of \<open>v\<close> is returned.
\<close>

theorem GetNextTaskIds_proceed:
  assumes "firstReached d h t (ID r) = Some (Some v)"
    and "InsStatus r = TaskInstanceStatusSuccess \<or> InsStatus r = TaskInstanceStatusSkipped"
    and "h' = h(v := (h v)\<lparr>Status := InsStatus r\<rparr>)"
  shows "GetNextTaskIds d h t r =
           Inr ((map (\<lambda>c. TaskInsID (h c)) (filter (Executable h') (children (h v))), True), h') \<and>
         TaskInsID (h v) = ID r \<and>
         (\<forall>c\<in>set (children (h v)).
            Executable h' c \<longleftrightarrow>
              (Status (h' c) = TaskInstanceStatusInit \<or> Status (h' c) = TaskInstanceStatusRetrying \<or>
               Status (h' c) = TaskInstanceStatusContinue \<or> Status (h' c) = TaskInstanceStatusEnding) \<and>
              (\<forall>p\<in>set (parents (h c)). p \<noteq> v \<longrightarrow>
                 Status (h p) = TaskInstanceStatusSuccess \<or> Status (h p) = TaskInstanceStatusSkipped))"
proof -
  have ex: "Executable h' c \<longleftrightarrow>
              (Status (h' c) = TaskInstanceStatusInit \<or> Status (h' c) = TaskInstanceStatusRetrying \<or>
               Status (h' c) = TaskInstanceStatusContinue \<or> Status (h' c) = TaskInstanceStatusEnding) \<and>
              (\<forall>p\<in>set (parents (h c)). p \<noteq> v \<longrightarrow>
                 Status (h p) = TaskInstanceStatusSuccess \<or> Status (h p) = TaskInstanceStatusSkipped)" for c
    using assms(2,3) by (auto simp: Executable_iff)
  have "map (\<lambda>c. TaskInsID (h' c)) xs = map (\<lambda>c. TaskInsID (h c)) xs" for xs
    using assms(3) by simp
  then show ?thesis
    using assms firstReached_identity [OF assms(1)] ex
    by (auto simp add: GetNextTaskIds_firstReached GetNextTaskIds_walkFunc_def
        CanExecuteChild_def Let_def)
qed

text \<open>
  Witness for C5: in the diamond with A in status Success, B running and D in status
  Init, reporting B as Success returns D when C is in status Success, and returns
  nothing when C is still running; and in the store built from \<^const>\<open>selfDependent\<close>
  reporting T as Success returns U.
\<close>

theorem GetNextTaskIds_proceed_witness:
  "GetNextTaskIds 4
      (diamondHeap TaskInstanceStatusSuccess TaskInstanceStatusRunning TaskInstanceStatusSuccess
         TaskInstanceStatusInit) 0
      \<lparr>ID = ''B'', DagInsID = ''run'', InsStatus = TaskInstanceStatusSuccess\<rparr> =
     Inr (([''D''], True),
       diamondHeap TaskInstanceStatusSuccess TaskInstanceStatusSuccess TaskInstanceStatusSuccess
         TaskInstanceStatusInit) \<and>
   GetNextTaskIds 4
      (diamondHeap TaskInstanceStatusSuccess TaskInstanceStatusRunning TaskInstanceStatusRunning
         TaskInstanceStatusInit) 0
      \<lparr>ID = ''B'', DagInsID = ''run'', InsStatus = TaskInstanceStatusSuccess\<rparr> =
     Inr (([], True),
       diamondHeap TaskInstanceStatusSuccess TaskInstanceStatusSuccess TaskInstanceStatusRunning
         TaskInstanceStatusInit) \<and>
   GetNextTaskIds 3 selfDependentHeap 0
      \<lparr>ID = ''T'', DagInsID = ''run'', InsStatus = TaskInstanceStatusSuccess\<rparr> =
     Inr (([''U''], True), selfDependentHeap(2 := node ''T'' TaskInstanceStatusSuccess [3] [1]))"
proof -
  let ?r = "\<lparr>ID = ''B'', DagInsID = ''run'', InsStatus = TaskInstanceStatusSuccess\<rparr>"
  let ?q = "\<lparr>ID = ''T'', DagInsID = ''run'', InsStatus = TaskInstanceStatusSuccess\<rparr>"
  have a: "GetNextTaskIds 4 (diamondHeap TaskInstanceStatusSuccess TaskInstanceStatusRunning c
             TaskInstanceStatusInit) 0 ?r =
           Inr ((map (\<lambda>x. TaskInsID (diamondHeap TaskInstanceStatusSuccess TaskInstanceStatusRunning c
                   TaskInstanceStatusInit x))
                  (filter (Executable (diamondHeap TaskInstanceStatusSuccess TaskInstanceStatusSuccess c
                     TaskInstanceStatusInit)) [4]), True),
             diamondHeap TaskInstanceStatusSuccess TaskInstanceStatusSuccess c TaskInstanceStatusInit)"
    for c
  proof -
    let ?h = "diamondHeap TaskInstanceStatusSuccess TaskInstanceStatusRunning c TaskInstanceStatusInit"
    let ?h' = "diamondHeap TaskInstanceStatusSuccess TaskInstanceStatusSuccess c TaskInstanceStatusInit"
    have f: "firstReached 4 ?h 0 (ID ?r) = Some (Some 2)" by (simp add: diamond_reached_B)
    have s: "InsStatus ?r = TaskInstanceStatusSuccess \<or> InsStatus ?r = TaskInstanceStatusSkipped"
      by simp
    have e: "?h' = ?h(2 := (?h 2)\<lparr>Status := InsStatus ?r\<rparr>)"
      by (simp add: diamondHeap_def node_def fun_eq_iff)
    have "children (?h 2) = [4]" by (simp add: diamondHeap_def node_def)
    with GetNextTaskIds_proceed [OF f s e] show ?thesis by simp
  qed
  have b: "GetNextTaskIds 3 selfDependentHeap 0 ?q =
     Inr ((map (\<lambda>x. TaskInsID (selfDependentHeap x))
            (filter (Executable (selfDependentHeap(2 := node ''T'' TaskInstanceStatusSuccess [3] [1])))
               [3]), True),
          selfDependentHeap(2 := node ''T'' TaskInstanceStatusSuccess [3] [1]))"
  proof -
    have g: "firstReached 3 selfDependentHeap 0 (ID ?q) = Some (Some 2)"
      by (simp add: selfDependent_reached)
    have s: "InsStatus ?q = TaskInstanceStatusSuccess \<or> InsStatus ?q = TaskInstanceStatusSkipped"
      by simp
    have e: "selfDependentHeap(2 := node ''T'' TaskInstanceStatusSuccess [3] [1]) =
        selfDependentHeap(2 := (selfDependentHeap 2)\<lparr>Status := InsStatus ?q\<rparr>)"
      by (simp add: selfDependent_nodes node_def)
    have "children (selfDependentHeap 2) = [3]" by (simp add: selfDependent_nodes node_def)
    with GetNextTaskIds_proceed [OF g s e] show ?thesis by simp
  qed
  have c: "filter (Executable (selfDependentHeap(2 := node ''T'' TaskInstanceStatusSuccess [3] [1])))
             [3] = [3]"
    by (simp add: Executable_def CanExecuteChild_def selfDependent_nodes node_def)
  have "TaskInsID (selfDependentHeap 3) = ''U''" by (simp add: selfDependent_nodes node_def)
  with b c have b': "GetNextTaskIds 3 selfDependentHeap 0 ?q =
     Inr (([''U''], True), selfDependentHeap(2 := node ''T'' TaskInstanceStatusSuccess [3] [1]))"
    by simp
  from a [of TaskInstanceStatusSuccess] have a1: "GetNextTaskIds 4
      (diamondHeap TaskInstanceStatusSuccess TaskInstanceStatusRunning TaskInstanceStatusSuccess
         TaskInstanceStatusInit) 0 ?r =
     Inr (([''D''], True),
       diamondHeap TaskInstanceStatusSuccess TaskInstanceStatusSuccess TaskInstanceStatusSuccess
         TaskInstanceStatusInit)"
    by (simp add: walk_eval)
  from a [of TaskInstanceStatusRunning] have a2: "GetNextTaskIds 4
      (diamondHeap TaskInstanceStatusSuccess TaskInstanceStatusRunning TaskInstanceStatusRunning
         TaskInstanceStatusInit) 0 ?r =
     Inr (([], True),
       diamondHeap TaskInstanceStatusSuccess TaskInstanceStatusSuccess TaskInstanceStatusRunning
         TaskInstanceStatusInit)"
    by (simp add: walk_eval)
  from a1 a2 b' show ?thesis by (intro conjI)
qed

text \<open>
  Claim C10. Let the gated walk from the root come to an end within the depth bound,
  as it does on every acyclic graph that \<^verbatim>\<open>BuildRootNode\<close> builds (lemma
  \<open>walkOrder_built_acyclic\<close>). When no node it visits carries the identity of the
  record (with identities unique per run: the node with that identity is in the graph
  but the walk never visits it), \<^verbatim>\<open>GetNextTaskIds\<close> returns the empty list with found
  false and leaves the store unchanged. By lemmas \<open>GetNextTaskIds_firstReached\<close> and
  \<open>firstReached_None_iff\<close> this is the only case in which it returns with found false.
\<close>

theorem GetNextTaskIds_not_reached:
  assumes "walkOrder d h t = Some vs"
    and "\<forall>v\<in>set vs. TaskInsID (h v) \<noteq> ID r"
  shows "GetNextTaskIds d h t r = Inr (([], False), h)"
proof -
  from assms(2) have "List.find (\<lambda>v. TaskInsID (h v) = ID r) vs = None"
    by (simp add: find_None_iff)
  then show ?thesis by (simp add: GetNextTaskIds_walkOrder [OF assms(1)])
qed

text \<open>
  Witness for C10: in the diamond with A running the walk visits A only; a record for D,
  which is a node of the graph, is reported as not found.
\<close>

theorem GetNextTaskIds_not_reached_witness:
  "TaskInsID (diamondHeap TaskInstanceStatusRunning TaskInstanceStatusInit TaskInstanceStatusInit
      TaskInstanceStatusInit 4) = ''D'' \<and>
   walkOrder 4 (diamondHeap TaskInstanceStatusRunning TaskInstanceStatusInit TaskInstanceStatusInit
      TaskInstanceStatusInit) 0 = Some [1] \<and>
   GetNextTaskIds 4
      (diamondHeap TaskInstanceStatusRunning TaskInstanceStatusInit TaskInstanceStatusInit
         TaskInstanceStatusInit) 0
      \<lparr>ID = ''D'', DagInsID = ''run'', InsStatus = TaskInstanceStatusSuccess\<rparr> =
     Inr (([], False),
       diamondHeap TaskInstanceStatusRunning TaskInstanceStatusInit TaskInstanceStatusInit
         TaskInstanceStatusInit)"
proof -
  let ?h = "diamondHeap TaskInstanceStatusRunning TaskInstanceStatusInit TaskInstanceStatusInit
      TaskInstanceStatusInit"
  let ?r = "\<lparr>ID = ''D'', DagInsID = ''run'', InsStatus = TaskInstanceStatusSuccess\<rparr>"
  have w: "walkOrder 4 ?h 0 = Some [1]" by (simp add: walk_eval)
  have n: "\<forall>v\<in>set [1]. TaskInsID (?h v) \<noteq> ID ?r" by (simp add: walk_eval)
  have "TaskInsID (?h 4) = ''D''" by (simp add: walk_eval)
  with GetNextTaskIds_not_reached [OF w n] w show ?thesis by simp
qed

text \<open>
  When the walk does not come to an end, neither does \<^verbatim>\<open>GetNextTaskIds\<close>. In the
  store built from \<^const>\<open>selfDependent\<close> the node U is present and its only parent T
  is running, so the walk never visits U; but the walk descends from A into A for ever,
  and for a record that names U \<^verbatim>\<open>GetNextTaskIds\<close> returns within no depth.
\<close>

theorem GetNextTaskIds_no_return_on_cycle:
  "BuildRootNode selfDependent = Inr (selfDependentHeap, 0) \<and>
   TaskInsID (selfDependentHeap 3) = ''U'' \<and>
   parents (selfDependentHeap 3) = [2] \<and>
   Status (selfDependentHeap 2) = TaskInstanceStatusRunning \<and>
   (\<forall>d. GetNextTaskIds d selfDependentHeap 0
           \<lparr>ID = ''U'', DagInsID = ''run'', InsStatus = TaskInstanceStatusSuccess\<rparr> =
         Inl DepthExceeded)"
  by (simp add: build_selfDependent selfDependent_U_no_return selfDependent_nodes node_def)




text \<open>
  Claim C7. The call has no error result for a failed lookup. Whenever the first lookup
  fails, or the second fails, or the list it returns is not a single record in status
  Success (so also when the end marker is absent), the result is the one computed with
  a store whose every lookup fails: the result of the gated walk, which is
  \<open>rollup\<close> of the walk order when the walk completes. Whenever both lookups
  succeed and the second returns exactly one record in status Success, the result is
  Success with the empty source and the unchanged store, for every depth bound
  (including 0, which admits no walk at all) and whatever the statuses of the nodes
  are.
\<close>

theorem ComputeStatus_fast_path:
  "(children (h t) = c0 # cs \<longrightarrow>
      (GetTaskIns store (TaskInsID (h c0)) = None \<or>
       (\<exists>taskIns. GetTaskIns store (TaskInsID (h c0)) = Some taskIns \<and>
          (ListTaskInstance store \<lparr>InputDagInsID = DagInsID taskIns, InputTaskID = TaskEndID\<rparr> = None \<or>
           (\<exists>endTask. ListTaskInstance store
                \<lparr>InputDagInsID = DagInsID taskIns, InputTaskID = TaskEndID\<rparr> = Some endTask \<and>
              (length endTask \<noteq> 1 \<or> InsStatus (hd endTask) \<noteq> TaskInstanceStatusSuccess))))) \<longrightarrow>
      ComputeStatus d store h t = ComputeStatus d failingStore h t \<and>
      ComputeStatus d store h t \<noteq> Inl IndexOutOfRange \<and>
      (\<forall>vs. walkOrder d h t = Some vs \<longrightarrow> ComputeStatus d store h t = Inr (rollup h vs, h))) \<and>
   (children (h t) = c0 # cs \<longrightarrow>
      GetTaskIns store (TaskInsID (h c0)) = Some taskIns \<longrightarrow>
      ListTaskInstance store \<lparr>InputDagInsID = DagInsID taskIns, InputTaskID = TaskEndID\<rparr> =
        Some [endTask] \<longrightarrow>
      InsStatus endTask = TaskInstanceStatusSuccess \<longrightarrow>
      ComputeStatus d store h t = Inr ((TreeStatusSuccess, []), h))"
proof (intro conjI impI)
  assume c: "children (h t) = c0 # cs"
    and f: "GetTaskIns store (TaskInsID (h c0)) = None \<or>
       (\<exists>taskIns. GetTaskIns store (TaskInsID (h c0)) = Some taskIns \<and>
          (ListTaskInstance store \<lparr>InputDagInsID = DagInsID taskIns, InputTaskID = TaskEndID\<rparr> = None \<or>
           (\<exists>endTask. ListTaskInstance store
                \<lparr>InputDagInsID = DagInsID taskIns, InputTaskID = TaskEndID\<rparr> = Some endTask \<and>
              (length endTask \<noteq> 1 \<or> InsStatus (hd endTask) \<noteq> TaskInstanceStatusSuccess))))"
  from f have e: "\<not> endTaskSucceeded store (TaskInsID (h c0))"
    by (auto simp: endTaskSucceeded_def)
  have e': "\<not> endTaskSucceeded failingStore (TaskInsID (h c0))"
    by (simp add: endTaskSucceeded_def failingStore_def)
  from c e e' show "ComputeStatus d store h t = ComputeStatus d failingStore h t"
    by (simp add: ComputeStatus_def)
  from c e show "ComputeStatus d store h t \<noteq> Inl IndexOutOfRange"
    by (simp add: ComputeStatus_def split: option.splits prod.splits)
  show "\<forall>vs. walkOrder d h t = Some vs \<longrightarrow> ComputeStatus d store h t = Inr (rollup h vs, h)"
    using ComputeStatus_walkOrder [OF _ c e] by blast
next
  assume "children (h t) = c0 # cs"
    "GetTaskIns store (TaskInsID (h c0)) = Some taskIns"
    "ListTaskInstance store \<lparr>InputDagInsID = DagInsID taskIns, InputTaskID = TaskEndID\<rparr> =
        Some [endTask]"
    "InsStatus endTask = TaskInstanceStatusSuccess"
  then show "ComputeStatus d store h t = Inr ((TreeStatusSuccess, []), h)"
    by (simp add: ComputeStatus_def endTaskSucceeded_def)
qed

text \<open>
  Witness for C7: on the graph of the failed X and the blocked Y, a store that reports
  the end marker as succeeded gives Success without any walk, and a store that reports
  no end marker gives the verdict of the walk.
\<close>

theorem ComputeStatus_fast_path_witness:
  "ComputeStatus 0 endedStore failedThenBlockedHeap 0 =
     Inr ((TreeStatusSuccess, []), failedThenBlockedHeap) \<and>
   ComputeStatus 2 \<lparr>GetTaskIns = GetTaskIns endedStore, ListTaskInstance = (\<lambda>_. Some [])\<rparr>
       failedThenBlockedHeap 0 =
     Inr ((TreeStatusBlocked, ''Y''), failedThenBlockedHeap)"
proof -
  let ?h = failedThenBlockedHeap
  let ?ti = "\<lparr>ID = ''X'', DagInsID = ''run'', InsStatus = TaskInstanceStatusRunning\<rparr>"
  let ?e = "\<lparr>ID = ''e'', DagInsID = ''run'', InsStatus = TaskInstanceStatusSuccess\<rparr>"
  let ?st = "\<lparr>GetTaskIns = GetTaskIns endedStore, ListTaskInstance = (\<lambda>_. Some [])\<rparr>"
  have c: "children (?h 0) = 1 # [2]" and i: "TaskInsID (?h 1) = ''X''"
    by (simp_all add: failedThenBlockedHeap_def heap_eval)
  have g: "GetTaskIns endedStore (TaskInsID (?h 1)) = Some ?ti"
    by (simp add: endedStore_def failedThenBlockedHeap_def heap_eval)
  have l: "ListTaskInstance endedStore \<lparr>InputDagInsID = DagInsID ?ti, InputTaskID = TaskEndID\<rparr> =
        Some [?e]"
    by (simp add: endedStore_def)
  have a: "ComputeStatus 0 endedStore ?h 0 = Inr ((TreeStatusSuccess, []), ?h)"
    using ComputeStatus_fast_path [of ?h 0 1 "[2]" endedStore 0 ?ti ?e] c g l by simp
  have w: "walkOrder 2 ?h 0 = Some [1, 2]"
    by (simp add: failedThenBlockedHeap_def heap_eval eval_nat_numeral)
  have g': "GetTaskIns ?st (TaskInsID (?h 1)) = Some ?ti"
    by (simp add: endedStore_def failedThenBlockedHeap_def heap_eval)
  have l': "ListTaskInstance ?st \<lparr>InputDagInsID = DagInsID ?ti, InputTaskID = TaskEndID\<rparr> = Some []"
    by simp
  have "ComputeStatus 2 ?st ?h 0 = Inr (rollup ?h [1, 2], ?h)"
    using ComputeStatus_fast_path [of ?h 0 1 "[2]" ?st 2 ?ti ?e] c g' l' w by auto
  moreover have "rollup ?h [1, 2] = (TreeStatusBlocked, ''Y'')"
    by (simp add: rollup_def inFlight_def failedOrBlocked_def verdict_def sourced_def
        failedThenBlockedHeap_def heap_eval)
  ultimately show ?thesis using a by simp
qed

text \<open>
  Claim C3. \<^verbatim>\<open>BuildRootNode\<close> succeeds exactly on the descriptor lists in which no
  graph identity repeats, every declared dependency is the graph identity of a
  descriptor of the list, and some descriptor declares no dependency. On success the
  root has children and the only parent of each is the root. Each violation has an
  error of its own: a repeated graph identity gives \<open>TaskIdRepeat\<close> naming a graph
  identity of the list; otherwise a missing dependency gives \<open>DependNotFound\<close>
  naming a task and a dependency of it that is not in the list; otherwise the absence
  of a task without dependencies gives \<open>NoStartNodes\<close>. The nil-pointer branch of
  the model is never taken.
\<close>

theorem BuildRootNode_succeeds_iff:
  "((\<exists>h root. BuildRootNode tasks = Inr (h, root)) \<longleftrightarrow>
      distinct (map GetGraphID tasks) \<and>
      (\<forall>t\<in>set tasks. \<forall>d\<in>set (GetDepend t). d \<in> GetGraphID ` set tasks) \<and>
      (\<exists>t\<in>set tasks. GetDepend t = [])) \<and>
   (\<forall>h root. BuildRootNode tasks = Inr (h, root) \<longrightarrow>
      children (h root) \<noteq> [] \<and> (\<forall>c\<in>set (children (h root)). parents (h c) = [root])) \<and>
   (\<not> distinct (map GetGraphID tasks) \<longrightarrow>
      (\<exists>g\<in>GetGraphID ` set tasks. BuildRootNode tasks = Inl (TaskIdRepeat g))) \<and>
   (distinct (map GetGraphID tasks) \<longrightarrow>
    \<not> (\<forall>t\<in>set tasks. \<forall>d\<in>set (GetDepend t). d \<in> GetGraphID ` set tasks) \<longrightarrow>
      (\<exists>t\<in>set tasks. \<exists>d\<in>set (GetDepend t). d \<notin> GetGraphID ` set tasks \<and>
         BuildRootNode tasks = Inl (DependNotFound (GetGraphID t) d))) \<and>
   (distinct (map GetGraphID tasks) \<longrightarrow>
    (\<forall>t\<in>set tasks. \<forall>d\<in>set (GetDepend t). d \<in> GetGraphID ` set tasks) \<longrightarrow>
    \<not> (\<exists>t\<in>set tasks. GetDepend t = []) \<longrightarrow>
      BuildRootNode tasks = Inl NoStartNodes)"
proof -
  let ?D = "distinct (map GetGraphID tasks)"
  let ?P = "\<forall>t\<in>set tasks. \<forall>d\<in>set (GetDepend t). d \<in> GetGraphID ` set tasks"
  let ?Z = "\<exists>t\<in>set tasks. GetDepend t = []"
  have rep: "\<exists>g\<in>GetGraphID ` set tasks. BuildRootNode tasks = Inl (TaskIdRepeat g)" if "\<not> ?D"
    using that by (rule BuildRootNode_repeat)
  have dep: "\<exists>t\<in>set tasks. \<exists>d\<in>set (GetDepend t). d \<notin> GetGraphID ` set tasks \<and>
         BuildRootNode tasks = Inl (DependNotFound (GetGraphID t) d)" if "?D" "\<not> ?P"
    using that by (rule BuildRootNode_depend)
  have nos: "BuildRootNode tasks = Inl NoStartNodes" if "?D" "?P" "\<not> ?Z"
    using that by (rule BuildRootNode_no_start)
  have suc: "\<exists>h. BuildRootNode tasks = Inr (h, 0) \<and> children (h 0) \<noteq> [] \<and>
           (\<forall>c\<in>set (children (h 0)). parents (h c) = [0])" if "?D" "?P" "?Z"
    using that by (rule BuildRootNode_success)
  have iff: "(\<exists>h root. BuildRootNode tasks = Inr (h, root)) \<longleftrightarrow> ?D \<and> ?P \<and> ?Z"
  proof
    assume ok: "\<exists>h root. BuildRootNode tasks = Inr (h, root)"
    have "?D" using ok rep by (cases ?D) auto
    moreover have "?P" using ok dep \<open>?D\<close> by (cases ?P) auto
    moreover have "?Z" using ok nos \<open>?D\<close> \<open>?P\<close> by (cases ?Z) auto
    ultimately show "?D \<and> ?P \<and> ?Z" by blast
  next
    assume "?D \<and> ?P \<and> ?Z"
    with suc show "\<exists>h root. BuildRootNode tasks = Inr (h, root)" by blast
  qed
  have par: "children (h root) \<noteq> [] \<and> (\<forall>c\<in>set (children (h root)). parents (h c) = [root])"
    if b: "BuildRootNode tasks = Inr (h, root)" for h root
  proof -
    from b iff have "?D" "?P" "?Z" by blast+
    from suc [OF this] b show ?thesis by auto
  qed
  from iff par rep dep nos show ?thesis by blast
qed

text \<open>
  Witness for C3: the diamond is built and A, the only root child, has the root as its
  only parent; a list naming A twice, a list with the unknown dependency Z, and the
  two-task cycle without a start node give the three errors.
\<close>

theorem BuildRootNode_succeeds_iff_witness:
  "(\<exists>h. BuildRootNode (diamond TaskInstanceStatusInit TaskInstanceStatusInit TaskInstanceStatusInit
           TaskInstanceStatusInit) = Inr (h, 0) \<and> children (h 0) = [1] \<and> parents (h 1) = [0]) \<and>
   BuildRootNode [task ''A'' [] TaskInstanceStatusInit, task ''B'' [''A''] TaskInstanceStatusInit,
      task ''A'' [] TaskInstanceStatusInit] = Inl (TaskIdRepeat ''A'') \<and>
   BuildRootNode [task ''A'' [] TaskInstanceStatusInit, task ''B'' [''A'', ''Z''] TaskInstanceStatusInit] =
     Inl (DependNotFound ''B'' ''Z'') \<and>
   BuildRootNode [task ''A'' [''B''] TaskInstanceStatusInit, task ''B'' [''A''] TaskInstanceStatusInit] =
     Inl NoStartNodes"
proof -
  let ?I = TaskInstanceStatusInit
  let ?d = "diamond ?I ?I ?I ?I"
  have "\<exists>h. BuildRootNode ?d = Inr (h, 0) \<and> children (h 0) = [1] \<and> parents (h 1) = [0]"
  proof -
    have "distinct (map GetGraphID ?d) \<and>
        (\<forall>t\<in>set ?d. \<forall>x\<in>set (GetDepend t). x \<in> GetGraphID ` set ?d) \<and>
        (\<exists>t\<in>set ?d. GetDepend t = [])"
      by (simp add: diamond_def task_def)
    with BuildRootNode_succeeds_iff [of ?d] obtain h root where
      b: "BuildRootNode ?d = Inr (h, root)" by blast
    with BuildRootNode_succeeds_iff [of ?d]
    have p: "\<forall>c\<in>set (children (h root)). parents (h c) = [root]" by blast
    from b have hr: "h = diamondHeap ?I ?I ?I ?I" "root = 0" by (simp_all add: build_diamond)
    then have "children (h 0) = [1]" by (simp add: diamondHeap_def node_def)
    with p hr b show ?thesis by auto
  qed
  moreover
  let ?r = "[task ''A'' [] ?I, task ''B'' [''A''] ?I, task ''A'' [] ?I]"
  have "BuildRootNode ?r = Inl (TaskIdRepeat ''A'')"
  proof -
    have "\<not> distinct (map GetGraphID ?r)" by (simp add: task_def)
    with BuildRootNode_succeeds_iff [of ?r]
    obtain g where "g \<in> GetGraphID ` set ?r" "BuildRootNode ?r = Inl (TaskIdRepeat g)" by blast
    moreover have "BuildRootNode ?r \<noteq> Inl (TaskIdRepeat ''B'')"
      by (simp add: BuildRootNode_def buildGraphNodeMap_def task_def)
    ultimately show ?thesis by (auto simp: task_def)
  qed
  moreover
  let ?m = "[task ''A'' [] ?I, task ''B'' [''A'', ''Z''] ?I]"
  have "BuildRootNode ?m = Inl (DependNotFound ''B'' ''Z'')"
  proof -
    have "distinct (map GetGraphID ?m)" by (simp add: task_def)
    moreover have "\<not> (\<forall>t\<in>set ?m. \<forall>x\<in>set (GetDepend t). x \<in> GetGraphID ` set ?m)"
      by (simp add: task_def)
    ultimately obtain t x where "t \<in> set ?m" "x \<in> set (GetDepend t)" "x \<notin> GetGraphID ` set ?m"
      "BuildRootNode ?m = Inl (DependNotFound (GetGraphID t) x)"
      using BuildRootNode_succeeds_iff [of ?m] by blast
    then show ?thesis by (auto simp: task_def)
  qed
  moreover
  let ?n = "[task ''A'' [''B''] ?I, task ''B'' [''A''] ?I]"
  have "BuildRootNode ?n = Inl NoStartNodes"
  proof -
    have "distinct (map GetGraphID ?n)" by (simp add: task_def)
    moreover have "\<forall>t\<in>set ?n. \<forall>x\<in>set (GetDepend t). x \<in> GetGraphID ` set ?n"
      by (simp add: task_def)
    moreover have "\<not> (\<exists>t\<in>set ?n. GetDepend t = [])" by (simp add: task_def)
    ultimately show ?thesis using BuildRootNode_succeeds_iff [of ?n] by blast
  qed
  ultimately show ?thesis by blast
qed

text \<open>
  Claim C6, as the code has it. Let a graph be built by \<^verbatim>\<open>BuildRootNode\<close>. If it is
  acyclic, every call of \<^verbatim>\<open>HasCycle\<close> on the root that may recurse deeply enough
  returns none. If no node that is part of a cycle or depends on one shares its
  identity with another node (so in particular if the identities of the descriptors
  are pairwise distinct and differ from the identity of the root), the call terminates
  as well, and the values it may return are exactly the nodes of \<open>cycleFrontier\<close>:
  the nodes that are part of a cycle or depend on a node that is, and that have a parent
  of which neither holds; it returns none exactly when there is no such node. A cycle
  that no start node leads to has no such node and goes unreported.
\<close>

theorem HasCycle_built:
  assumes b: "BuildRootNode tasks = Inr (h, root)"
  shows "(acyclic (dependsOn h) \<longrightarrow> (\<exists>d. \<forall>d'\<ge>d. HasCycle d' h root = Some {None})) \<and>
         ((\<forall>w\<le>length tasks. onOrBelowCycle h w \<longrightarrow>
              (\<forall>v\<le>length tasks. TaskInsID (h v) = TaskInsID (h w) \<longrightarrow> v = w)) \<longrightarrow>
            (\<exists>d. \<forall>d'\<ge>d. HasCycle d' h root =
               Some (if cycleFrontier h = {} then {None} else Some ` cycleFrontier h))) \<and>
         (distinct (virtualTaskRootID # map GetID tasks) \<longrightarrow>
            (\<forall>w\<le>length tasks. \<forall>v\<le>length tasks. TaskInsID (h v) = TaskInsID (h w) \<longrightarrow> v = w))"
proof -
  let ?n = "length tasks"
  from BuildRootNode_wellLinked [OF b] have root: "root = 0" and wl: "wellLinked h root ?n"
    and vle: "\<forall>v. parents (h v) \<noteq> [] \<longrightarrow> v \<le> ?n"
    and id0: "TaskInsID (h 0) = virtualTaskRootID"
    and ids: "\<forall>i<?n. TaskInsID (h (Suc i)) = GetID (tasks ! i)"
    by auto
  have gen: "\<exists>d. \<forall>d'\<ge>d. HasCycle d' h root =
               Some (if cycleFrontier h = {} then {None} else Some ` cycleFrontier h)"
    if own: "\<forall>w\<le>?n. onOrBelowCycle h w \<longrightarrow> (\<forall>v\<le>?n. TaskInsID (h v) = TaskInsID (h w) \<longrightarrow> v = w)"
    using HasCycle_resolvable [OF wl built_ownIdentity [OF wl own]]
    unfolding built_frontier [OF wl vle] .
  have acy: "\<exists>d. \<forall>d'\<ge>d. HasCycle d' h root = Some {None}" if a: "acyclic (dependsOn h)"
  proof -
    from a have n: "\<not> onOrBelowCycle h w" for w by (rule acyclic_resolvable)
    then have "cycleFrontier h = {}" by (simp add: cycleFrontier_def)
    with gen n show ?thesis by simp
  qed
  from acy gen distinct_identities [OF id0 ids] show ?thesis by blast
qed

text \<open>
  Witness for C6: none on the diamond, which is acyclic; and A, at address 2, on the
  graph in which A depends on the start node S and on B, and B depends on A.
\<close>

theorem HasCycle_built_witness:
  "(\<exists>d. \<forall>d'\<ge>d. HasCycle d' (diamondHeap TaskInstanceStatusInit TaskInstanceStatusInit
        TaskInstanceStatusInit TaskInstanceStatusInit) 0 = Some {None}) \<and>
   (\<exists>d. \<forall>d'\<ge>d. HasCycle d' reachableCycleHeap 0 = Some {Some 2}) \<and>
   HasCycle 4 reachableCycleHeap 0 = Some {Some 2} \<and>
   TaskInsID (reachableCycleHeap 2) = ''A''"
proof -
  let ?I = TaskInstanceStatusInit
  note d = HasCycle_built [OF build_diamond [of ?I ?I ?I ?I]]
  from d diamond_acyclic
  have a: "\<exists>d. \<forall>d'\<ge>d. HasCycle d' (diamondHeap ?I ?I ?I ?I) 0 = Some {None}" by blast
  note r = HasCycle_built [OF build_reachableCycle]
  have own: "\<forall>w\<le>length reachableCycle. onOrBelowCycle reachableCycleHeap w \<longrightarrow>
      (\<forall>v\<le>length reachableCycle.
          TaskInsID (reachableCycleHeap v) = TaskInsID (reachableCycleHeap w) \<longrightarrow> v = w)"
    unfolding reachableCycle_cyclic
    by (auto simp: reachableCycleHeap_def heap_eval split: if_splits)
  from r own have "\<exists>d. \<forall>d'\<ge>d. HasCycle d' reachableCycleHeap 0 =
      Some (if cycleFrontier reachableCycleHeap = {} then {None}
            else Some ` cycleFrontier reachableCycleHeap)"
    by blast
  then have b: "\<exists>d. \<forall>d'\<ge>d. HasCycle d' reachableCycleHeap 0 = Some {Some 2}"
    by (simp add: reachableCycle_frontier)
  have c: "HasCycle 4 reachableCycleHeap 0 = Some {Some 2}"
    by (simp add: HasCycle_def isParentCompleted_def reachableCycleHeap_def heap_eval
        eval_nat_numeral)
  have "TaskInsID (reachableCycleHeap 2) = ''A''"
    by (simp add: reachableCycleHeap_def node_def)
  with a b c show ?thesis by blast
qed

text \<open>
  Counterexample for C6 as stated: the descriptors S (no dependency), A depending on B
  and B depending on A are built into a graph that contains the cycle of A and B, and
  \<^verbatim>\<open>HasCycle\<close> on its root returns none.
\<close>

theorem HasCycle_misses_unreachable_cycle:
  "BuildRootNode unreachableCycle = Inr (unreachableCycleHeap, 0) \<and>
   (2, 2) \<in> (dependsOn unreachableCycleHeap)\<^sup>+ \<and>
   \<not> acyclic (dependsOn unreachableCycleHeap) \<and>
   HasCycle 3 unreachableCycleHeap 0 = Some {None}"
proof -
  have e1: "(2, 3) \<in> dependsOn unreachableCycleHeap"
    by (simp add: dependsOn_def unreachableCycleHeap_def node_def)
  have e2: "(3, 2) \<in> dependsOn unreachableCycleHeap"
    by (simp add: dependsOn_def unreachableCycleHeap_def node_def)
  from e1 e2 have c: "(2, 2) \<in> (dependsOn unreachableCycleHeap)\<^sup>+"
    by (meson r_into_trancl trancl_into_trancl)
  then have "\<not> acyclic (dependsOn unreachableCycleHeap)" by (auto simp: acyclic_def)
  moreover have "HasCycle 3 unreachableCycleHeap 0 = Some {None}"
    by (simp add: HasCycle_def isParentCompleted_def unreachableCycleHeap_def heap_eval
        eval_nat_numeral)
  ultimately show ?thesis using c build_unreachableCycle by simp
qed

end
